theory Spec2Isabelle
  imports Main
begin

section \<open>Strings as the Python code uses them\<close>

text \<open>
  File names, mail fields and log lines are Python \<open>str\<close> values; they are modelled as
  \<open>string\<close>, read as sequences of ASCII characters. The character classes below are the
  ASCII part of what Python's \<open>str.strip\<close>, \<open>str.lower\<close> and the \<open>re\<close> classes
  \<open>\d\<close> and \<open>\w\<close> accept.
\<close>

definition invalid_chars :: "char list" where
  \<comment> \<open>the class \<open>[<>:"/\\|?*]\<close> of \<open>sanitize_filename\<close>; 0x22 is the double quote, 0x5C the backslash\<close>
  "invalid_chars =
     [CHR ''<'', CHR ''>'', CHR '':'', CHR 0x22, CHR ''/'', CHR 0x5C, CHR ''|'', CHR ''?'', CHR ''*'']"

definition isspace :: "char \<Rightarrow> bool" where
  \<comment> \<open>the ASCII characters \<open>str.strip()\<close> removes: TAB, LF, VT, FF, CR, FS, GS, RS, US and the space\<close>
  "isspace c \<longleftrightarrow>
     c \<in> set [CHR 0x09, CHR 0x0A, CHR 0x0B, CHR 0x0C, CHR 0x0D,
              CHR 0x1C, CHR 0x1D, CHR 0x1E, CHR 0x1F, CHR 0x20]"

definition strip :: "string \<Rightarrow> string" where
  "strip s = rev (dropWhile isspace (rev (dropWhile isspace s)))"

definition re_sub_invalid :: "string \<Rightarrow> string" where
  \<comment> \<open>\<open>re.sub(invalid_chars, '_', filename)\<close>: the class matches one character at a time\<close>
  "re_sub_invalid filename = map (\<lambda>c. if c \<in> set invalid_chars then CHR ''_'' else c) filename"

definition sanitize_filename :: "string \<Rightarrow> string" where
  "sanitize_filename filename = strip (re_sub_invalid filename)"

function str_nat :: "nat \<Rightarrow> string" where
  \<comment> \<open>\<open>str(n)\<close> of a non-negative \<open>int\<close>: its decimal digits\<close>
  "str_nat n =
     (if n < 10 then [''0123456789'' ! n]
      else str_nat (n div 10) @ [''0123456789'' ! (n mod 10)])"
  by pat_completeness auto
termination
  by (relation "measure id") auto

declare str_nat.simps [simp del]

definition str_int :: "int \<Rightarrow> string" where
  "str_int i = (if i < 0 then ''-'' @ str_nat (nat (- i)) else str_nat (nat i))"

definition splitext :: "string \<Rightarrow> string \<times> string" where
  \<comment> \<open>\<open>os.path.splitext\<close>: the extension starts at the last dot of the last path component,
      unless only dots stand before it in that component; both separators of Windows count\<close>
  "splitext p =
     (let is_sep = (\<lambda>c. c = CHR 0x5C \<or> c = CHR ''/'');
          base = rev (takeWhile (\<lambda>c. \<not> is_sep c) (rev p));
          ext = CHR ''.'' # rev (takeWhile (\<lambda>c. c \<noteq> CHR ''.'') (rev base));
          stem = take (length base - length ext) base
      in if CHR ''.'' \<in> set base \<and> (\<exists>c \<in> set stem. c \<noteq> CHR ''.'')
         then (take (length p - length ext) p, ext)
         else (p, []))"

definition os_path_join :: "string \<Rightarrow> string \<Rightarrow> string" where
  \<comment> \<open>\<open>os.path.join\<close> of a directory and a relative name, with the Windows separator\<close>
  "os_path_join a b = a @ [CHR 0x5C] @ b"

section \<open>Exceptions and C integers\<close>

text \<open>
  The exceptions of the standard library that the code below can meet, and the range of
  a C \<open>int\<close>, into which \<open>datetime.date\<close> and \<open>QTimer.start\<close> read their arguments.
\<close>

datatype py_error = ValueError | OverflowError | TypeError | AttributeError | OSError

definition c_int :: "int \<Rightarrow> bool" where
  \<comment> \<open>the values that fit a C \<open>int\<close>\<close>
  "c_int i \<longleftrightarrow> - (2 ^ 31) \<le> i \<and> i < 2 ^ 31"

section \<open>The mail poller\<close>

text \<open>
  \<open>EmailAttachmentDownloader\<close>: the fields of the object that \<open>check_emails\<close>,
  \<open>save_processed_uid\<close>, \<open>pause_monitoring\<close> and \<open>resume_monitoring\<close> read and write. The
  \<open>QTimer\<close> is its interval in milliseconds while it runs and \<open>None\<close> while it does not;
  the ledger file is the list of its lines; the download folder is a map from paths to
  the bytes written there. The log and the tray notifications are kept as lists, newest
  last. \<open>failure_count\<close> starts at 0 and is only ever incremented or set to 0, so it is
  a \<open>nat\<close>.
\<close>

datatype log_level = INFO | WARNING | ERROR

record downloader =
  initial_backoff :: int
  backoff_factor :: int
  max_backoff :: int
  current_backoff :: int
  failure_count :: nat
  polling_interval :: int
  timer :: "int option"
  monitoring_paused :: bool
  processed_uids :: "string set"
  processed_uids_file :: "string list"
  FOLDER :: string
  download_folder :: string
  disk :: "string \<rightharpoonup> string"
  logged :: "(log_level \<times> string) list"
  notifications :: "string list"

datatype sender = Addr string | NameAddr string string

record attachment =
  att_filename :: "string option"
  payload :: string

record message =
  uid :: string
  subject :: string
  msg_from :: sender
  attachments :: "attachment list"

text \<open>
  What the world outside does during one tick. The mail server: the exception raised by
  \<open>MailBox(...).login(...)\<close>, before the \<open>with\<close> block is entered, if any; the exception
  raised by \<open>mailbox.folder.set\<close>, if any; the messages \<open>mailbox.fetch()\<close> yields, and the
  exception it raises after them, if any; and the exception raised by the logout that
  leaving the \<open>with\<close> block performs (on every exit path), if any. The machine: the clock,
  and which writes fail. An exception of the session is kept as its text, which is what
  the handlers log.
\<close>

record mailbox =
  login_error :: "string option"
  folder_error :: "string option"
  fetched :: "message list"
  fetch_error :: "string option"
  logout_error :: "string option"

record tick_env =
  date_str :: string
  timestamp :: string
  write_error :: "string \<Rightarrow> string option"
  ledger_error :: "string \<Rightarrow> string option"

definition logging :: "log_level \<Rightarrow> string \<Rightarrow> downloader \<Rightarrow> downloader" where
  "logging lvl msg s = s\<lparr>logged := logged s @ [(lvl, msg)]\<rparr>"

definition showMessage :: "string \<Rightarrow> string \<Rightarrow> downloader \<Rightarrow> downloader" where
  \<comment> \<open>the override: the tray notification, then a log line\<close>
  "showMessage title msg s =
     logging INFO (''Notification - '' @ title @ '': '' @ msg)
       (s\<lparr>notifications := notifications s @ [msg]\<rparr>)"

definition timer_start :: "int \<Rightarrow> downloader \<Rightarrow> py_error + downloader" where
  \<comment> \<open>\<open>self.timer.start(msec)\<close>: the argument is read into a C \<open>int\<close>, with \<open>OverflowError\<close>
      outside its range; Qt starts no timer for a negative interval\<close>
  "timer_start msec s =
     (if \<not> c_int msec then Inl OverflowError
      else if msec < 0 then Inr (s\<lparr>timer := None\<rparr>)
      else Inr (s\<lparr>timer := Some msec\<rparr>))"

definition new_downloader ::
  "int \<Rightarrow> int \<Rightarrow> int \<Rightarrow> int \<Rightarrow> string \<Rightarrow> string \<Rightarrow> string set \<Rightarrow> string list \<Rightarrow> (string \<rightharpoonup> string) \<Rightarrow> downloader" where
  \<comment> \<open>the state \<open>__init__\<close> leaves, before its first \<open>check_emails\<close> (for a polling interval
      outside the range of \<open>timer.start\<close> it raises, and there is no object)\<close>
  "new_downloader initial factor maxb interval mail_folder folder uids ledger files =
     \<lparr>initial_backoff = initial, backoff_factor = factor, max_backoff = maxb,
      current_backoff = initial, failure_count = 0, polling_interval = interval,
      timer = (if interval < 0 then None else Some (interval * 1000)),
      monitoring_paused = False,
      processed_uids = uids, processed_uids_file = ledger,
      FOLDER = mail_folder, download_folder = folder, disk = files, logged = [], notifications = []\<rparr>"

definition save_processed_uid :: "tick_env \<Rightarrow> string \<Rightarrow> downloader \<Rightarrow> string + downloader" where
  \<comment> \<open>\<open>Inl\<close> would be an exception leaving the function; the handler catches every \<open>Exception\<close>\<close>
  "save_processed_uid env u s =
     (case (case ledger_error env u of
              Some e \<Rightarrow> Inl e
            | None \<Rightarrow>
                Inr (logging INFO (''Saved processed UID: '' @ u)
                      (s\<lparr>processed_uids_file := processed_uids_file s @ [u],
                         processed_uids := insert u (processed_uids s)\<rparr>))) of
        Inr s' \<Rightarrow> Inr s'
      | Inl e \<Rightarrow> Inr (logging ERROR (''Failed to save processed UID '' @ u @ '': '' @ e) s))"

definition save_attachment ::
  "tick_env \<Rightarrow> message \<Rightarrow> string \<Rightarrow> attachment \<Rightarrow> downloader \<times> nat \<Rightarrow> downloader \<times> nat" where
  \<comment> \<open>the body of \<open>for att in msg.attachments\<close>; the pair is the object and \<open>new_attachments\<close>\<close>
  "save_attachment env msg subj att = (\<lambda>(s, new_attachments).
     let original_filename =
           sanitize_filename (case att_filename att of None \<Rightarrow> [] | Some f \<Rightarrow> f)
     in if original_filename = []
        then (logging WARNING ''Attachment with no filename. Skipping.'' s, new_attachments)
        else
          let sender_email =
                sanitize_filename (case msg_from msg of Addr a \<Rightarrow> a | NameAddr n a \<Rightarrow> a);
              invoice_name = sanitize_filename subj;
              new_filename = sender_email @ ''_'' @ invoice_name @ ''_'' @ date_str env @ ''_''
                               @ uid msg @ ''_'' @ original_filename;
              filepath = os_path_join (download_folder s) new_filename;
              new_filename' =
                (if disk s filepath \<noteq> None
                 then (case splitext new_filename of
                         (name, ext) \<Rightarrow> name @ ''_'' @ timestamp env @ ext)
                 else new_filename);
              filepath' =
                (if disk s filepath \<noteq> None
                 then os_path_join (download_folder s) new_filename' else filepath)
          in (case write_error env filepath' of
                Some e \<Rightarrow>
                  (logging ERROR (''Failed saving '' @ new_filename' @ '': '' @ e) s,
                   new_attachments)
              | None \<Rightarrow>
                  (logging INFO (''Downloaded: '' @ new_filename')
                     (s\<lparr>disk := (disk s)(filepath' \<mapsto> payload att)\<rparr>),
                   new_attachments + 1)))"

fun save_attachments ::
  "tick_env \<Rightarrow> message \<Rightarrow> string \<Rightarrow> attachment list \<Rightarrow> downloader \<times> nat \<Rightarrow> downloader \<times> nat" where
  "save_attachments env msg subj [] acc = acc"
| "save_attachments env msg subj (att # atts) acc =
     save_attachments env msg subj atts (save_attachment env msg subj att acc)"

definition process_message ::
  "tick_env \<Rightarrow> message \<Rightarrow> downloader \<times> nat \<Rightarrow> (string \<times> downloader) + (downloader \<times> nat)" where
  \<comment> \<open>the body of \<open>for msg in emails\<close>; \<open>Inl\<close> is an exception with the object as it was left\<close>
  "process_message env msg = (\<lambda>(s, new_attachments).
     if uid msg \<in> processed_uids s then Inr (s, new_attachments)
     else if attachments msg = []
     then
       let s1 = logging INFO (''No attachments in UID '' @ uid msg @ ''. Skipping.'') s
       in (case save_processed_uid env (uid msg) s1 of
             Inl e \<Rightarrow> Inl (e, s1)
           | Inr s' \<Rightarrow> Inr (s', new_attachments))
     else
       let subj = (if subject msg \<noteq> [] then subject msg else ''No_Subject'');
           s1 = logging INFO (''Processing email UID: '' @ uid msg @ '', Subject: '' @ subj) s
       in (case save_attachments env msg subj (attachments msg) (s1, new_attachments) of
             (s2, n) \<Rightarrow>
               (case save_processed_uid env (uid msg) s2 of
                  Inl e \<Rightarrow> Inl (e, s2)
                | Inr s3 \<Rightarrow> Inr (s3, n))))"

fun process_messages ::
  "tick_env \<Rightarrow> message list \<Rightarrow> downloader \<times> nat \<Rightarrow> (string \<times> downloader) + (downloader \<times> nat)" where
  "process_messages env [] acc = Inr acc"
| "process_messages env (msg # msgs) acc =
     (case process_message env msg acc of
        Inl err \<Rightarrow> Inl err
      | Inr acc' \<Rightarrow> process_messages env msgs acc')"

definition session_body :: "mailbox \<Rightarrow> tick_env \<Rightarrow> downloader \<Rightarrow> (string \<times> downloader) + downloader" where
  \<comment> \<open>the body of the \<open>with MailBox(...).login(...) as mailbox\<close> block of \<open>check_emails\<close>\<close>
  "session_body mb env s =
     (case folder_error mb of
        Some e \<Rightarrow> Inl (e, s)
      | None \<Rightarrow>
          let s1 = logging INFO (''Connected to folder: '' @ FOLDER s) s in
          (case process_messages env (fetched mb) (s1, 0) of
             Inl err \<Rightarrow> Inl err
           | Inr (s2, new_attachments) \<Rightarrow>
               (case fetch_error mb of
                  Some e \<Rightarrow> Inl (e, s2)
                | None \<Rightarrow>
                    if new_attachments > 0
                    then Inr ((logging INFO
                                 (''Downloaded '' @ str_nat new_attachments @ '' new attachment(s).'')
                                 (showMessage ''Worms Direct Management''
                                    (''Downloaded '' @ str_nat new_attachments @ '' new attachment(s).'')
                                    s2))
                              \<lparr>failure_count := 0, current_backoff := initial_backoff s2\<rparr>)
                    else Inr (logging INFO ''No new attachments found.'' s2))))"

definition mailbox_session :: "mailbox \<Rightarrow> tick_env \<Rightarrow> downloader \<Rightarrow> (string \<times> downloader) + downloader" where
  \<comment> \<open>the \<open>with\<close> statement: the login, the body, and the logout on the way out; an
      exception of the logout takes the place of the one the body raised\<close>
  "mailbox_session mb env s =
     (case login_error mb of
        Some e \<Rightarrow> Inl (e, s)
      | None \<Rightarrow>
          (case session_body mb env s of
             Inl (e, s1) \<Rightarrow>
               (case logout_error mb of Some e' \<Rightarrow> Inl (e', s1) | None \<Rightarrow> Inl (e, s1))
           | Inr s1 \<Rightarrow>
               (case logout_error mb of Some e' \<Rightarrow> Inl (e', s1) | None \<Rightarrow> Inr s1)))"

definition check_emails_call ::
  "mailbox \<Rightarrow> tick_env \<Rightarrow> downloader \<Rightarrow> py_error option \<times> downloader" where
  \<comment> \<open>one call of \<open>check_emails\<close>: the exception that leaves it, if any, and the object after
      it. Only \<open>timer.start\<close> in the handler can raise outside the \<open>try\<close>; the timer is
      stopped by then\<close>
  "check_emails_call mb env s =
     (if monitoring_paused s
      then (None, logging INFO ''Monitoring is paused. Skipping email check.'' s)
      else
        (case mailbox_session mb env (logging INFO ''Checking for new emails...'' s) of
           Inr s' \<Rightarrow> (None, s')
         | Inl (e, s1) \<Rightarrow>
             let s2 = showMessage ''Worms Direct Management'' (''Error: '' @ e)
                        (logging ERROR (''An error occurred while checking emails: '' @ e) s1);
                 s3 = s2\<lparr>failure_count := failure_count s2 + 1\<rparr>;
                 s4 = s3\<lparr>current_backoff :=
                            min (initial_backoff s3 * backoff_factor s3 ^ failure_count s3)
                                (max_backoff s3)\<rparr>;
                 s5 = logging INFO
                        (''Applying backoff: '' @ str_int (current_backoff s4) @ '' seconds'') s4;
                 s6 = s5\<lparr>timer := None\<rparr>
             in (case timer_start (current_backoff s6 * 1000) s6 of
                   Inr s7 \<Rightarrow> (None, s7)
                 | Inl err \<Rightarrow> (Some err, s6))))"

definition check_emails :: "mailbox \<Rightarrow> tick_env \<Rightarrow> downloader \<Rightarrow> downloader" where
  \<comment> \<open>\<open>check_emails\<close> returns nothing: its effect is the object after the call\<close>
  "check_emails mb env s = snd (check_emails_call mb env s)"

definition pause_monitoring :: "downloader \<Rightarrow> downloader" where
  "pause_monitoring s =
     (if \<not> monitoring_paused s
      then logging INFO ''Monitoring paused.''
             (showMessage ''Worms Direct Management'' ''Monitoring paused.''
                (s\<lparr>timer := None, monitoring_paused := True\<rparr>))
      else s)"

definition resume_monitoring :: "downloader \<Rightarrow> downloader" where
  \<comment> \<open>the object after the call; when \<open>timer.start\<close> raises, nothing has been assigned yet\<close>
  "resume_monitoring s =
     (if monitoring_paused s
      then (case timer_start (polling_interval s * 1000) s of
              Inl err \<Rightarrow> s
            | Inr s' \<Rightarrow>
                logging INFO ''Monitoring resumed.''
                  (showMessage ''Worms Direct Management'' ''Monitoring resumed.''
                     (s'\<lparr>monitoring_paused := False\<rparr>)))
      else s)"

fun run_ticks :: "(mailbox \<times> tick_env) list \<Rightarrow> downloader \<Rightarrow> downloader" where
  \<comment> \<open>one \<open>check_emails\<close> per timer tick, each with what the world does during it; an
      exception that leaves \<open>check_emails\<close> is handled nowhere, and no tick follows it\<close>
  "run_ticks [] s = s"
| "run_ticks ((mb, env) # ticks) s =
     (case check_emails_call mb env s of
        (None, s') \<Rightarrow> run_ticks ticks s'
      | (Some err, s') \<Rightarrow> s')"

definition tick_raises :: "mailbox \<Rightarrow> tick_env \<Rightarrow> downloader \<Rightarrow> bool" where
  \<comment> \<open>the mailbox session of this tick ends in the \<open>except\<close> branch\<close>
  "tick_raises mb env s \<longleftrightarrow>
     \<not> monitoring_paused s \<and>
     (case mailbox_session mb env (logging INFO ''Checking for new emails...'' s) of
        Inl _ \<Rightarrow> True | Inr _ \<Rightarrow> False)"

definition body_new_attachments :: "mailbox \<Rightarrow> tick_env \<Rightarrow> downloader \<Rightarrow> nat option" where
  \<comment> \<open>the value of \<open>new_attachments\<close> when the body of the \<open>with\<close> block reaches the \<open>if\<close>
      after the loop; \<open>None\<close> when it raises before\<close>
  "body_new_attachments mb env s =
     (case folder_error mb of
        Some e \<Rightarrow> None
      | None \<Rightarrow>
          (case process_messages env (fetched mb)
                  (logging INFO (''Connected to folder: '' @ FOLDER s) s, 0) of
             Inl err \<Rightarrow> None
           | Inr (s2, new_attachments) \<Rightarrow>
               (case fetch_error mb of
                  Some e \<Rightarrow> None
                | None \<Rightarrow> Some new_attachments)))"

definition tick_new_attachments :: "mailbox \<Rightarrow> tick_env \<Rightarrow> downloader \<Rightarrow> nat option" where
  \<comment> \<open>the value of \<open>new_attachments\<close> in a tick that completes without an exception;
      \<open>None\<close> for a paused tick and for one that raises\<close>
  "tick_new_attachments mb env s =
     (if monitoring_paused s \<or> login_error mb \<noteq> None \<or> logout_error mb \<noteq> None then None
      else body_new_attachments mb env (logging INFO ''Checking for new emails...'' s))"

definition raises_after_reset :: "mailbox \<Rightarrow> tick_env \<Rightarrow> downloader \<Rightarrow> bool" where
  \<comment> \<open>the tick saved a new attachment, went through the reset of lines 480-482, and then
      the logout raised\<close>
  "raises_after_reset mb env s \<longleftrightarrow>
     \<not> monitoring_paused s \<and> login_error mb = None \<and> logout_error mb \<noteq> None \<and>
     (case body_new_attachments mb env (logging INFO ''Checking for new emails...'' s) of
        None \<Rightarrow> False | Some n \<Rightarrow> 0 < n)"

text \<open>
  Bookkeeping for the proofs: the object as the body of the \<open>with\<close> block leaves it after
  a loop that saved \<open>n\<close> attachments, the scheduling fields on which two states of the
  object agree, how the ledger may grow from one state to a later one, backoff settings
  with which every delay the handler computes is one \<open>timer.start\<close> accepts, a run of ticks
  that all end in the \<open>except\<close> branch, such a run in which no tick raises after the reset,
  and the concrete objects the examples use.
\<close>

definition body_end :: "nat \<Rightarrow> downloader \<Rightarrow> downloader" where
  \<comment> \<open>lines 472-484 of \<open>check_emails\<close>, on the object \<open>s2\<close> the loop left\<close>
  "body_end n s2 =
     (if n > 0
      then (logging INFO (''Downloaded '' @ str_nat n @ '' new attachment(s).'')
              (showMessage ''Worms Direct Management''
                 (''Downloaded '' @ str_nat n @ '' new attachment(s).'') s2))
           \<lparr>failure_count := 0, current_backoff := initial_backoff s2\<rparr>
      else logging INFO ''No new attachments found.'' s2)"

definition same_schedule :: "downloader \<Rightarrow> downloader \<Rightarrow> bool" where
  "same_schedule s s' \<longleftrightarrow>
     initial_backoff s' = initial_backoff s \<and> backoff_factor s' = backoff_factor s \<and>
     max_backoff s' = max_backoff s \<and> current_backoff s' = current_backoff s \<and>
     failure_count s' = failure_count s \<and> polling_interval s' = polling_interval s \<and>
     timer s' = timer s \<and> monitoring_paused s' = monitoring_paused s \<and>
     FOLDER s' = FOLDER s \<and> download_folder s' = download_folder s"

definition ledger_grows :: "downloader \<Rightarrow> downloader \<Rightarrow> bool" where
  "ledger_grows s s' \<longleftrightarrow>
     processed_uids s \<subseteq> processed_uids s' \<and>
     (\<exists>new. processed_uids_file s' = processed_uids_file s @ new \<and>
            set new \<inter> processed_uids s = {})"

definition same_settings :: "downloader \<Rightarrow> downloader \<Rightarrow> bool" where
  "same_settings s s' \<longleftrightarrow>
     initial_backoff s' = initial_backoff s \<and> backoff_factor s' = backoff_factor s \<and>
     max_backoff s' = max_backoff s \<and> polling_interval s' = polling_interval s \<and>
     timer s' = timer s \<and> monitoring_paused s' = monitoring_paused s \<and>
     FOLDER s' = FOLDER s \<and> download_folder s' = download_folder s"

definition timer_safe :: "downloader \<Rightarrow> bool" where
  "timer_safe s \<longleftrightarrow>
     0 \<le> initial_backoff s \<and> 0 \<le> backoff_factor s \<and> 0 \<le> max_backoff s \<and>
     max_backoff s * 1000 < 2 ^ 31"

fun all_raise :: "(mailbox \<times> tick_env) list \<Rightarrow> downloader \<Rightarrow> bool" where
  "all_raise [] s = True"
| "all_raise ((mb, env) # ticks) s = (tick_raises mb env s \<and> all_raise ticks (check_emails mb env s))"

fun none_after_reset :: "(mailbox \<times> tick_env) list \<Rightarrow> downloader \<Rightarrow> bool" where
  "none_after_reset [] s = True"
| "none_after_reset ((mb, env) # ticks) s =
     (\<not> raises_after_reset mb env s \<and> none_after_reset ticks (check_emails mb env s))"

definition quiet_env :: tick_env where
  "quiet_env =
     \<lparr>date_str = ''20240315'', timestamp = ''20240315101500'',
      write_error = (\<lambda>p. None), ledger_error = (\<lambda>u. None)\<rparr>"

definition fresh :: downloader where
  "fresh = new_downloader 60 2 3600 600 ''Invoices'' ''D:'' {''7''} [''7''] Map.empty"

definition inbox :: "message list \<Rightarrow> mailbox" where
  "inbox msgs =
     \<lparr>login_error = None, folder_error = None, fetched = msgs, fetch_error = None,
      logout_error = None\<rparr>"

definition refused :: mailbox where
  "refused = (inbox [])\<lparr>login_error := Some ''connection refused''\<rparr>"

definition empty_inbox :: mailbox where
  "empty_inbox = inbox []"

definition invoice_mail :: "string \<Rightarrow> message" where
  "invoice_mail u =
     \<lparr>uid = u, subject = ''Invoice'', msg_from = Addr ''alice@x.com'',
      attachments = [\<lparr>att_filename = Some ''receipt.pdf'', payload = ''%PDF''\<rparr>]\<rparr>"

definition logout_fails :: "message list \<Rightarrow> mailbox" where
  "logout_fails msgs = (inbox msgs)\<lparr>logout_error := Some ''socket closed''\<rparr>"

section \<open>Dates\<close>

text \<open>
  \<open>datetime.date\<close>: a year, a month and a day. Its constructor raises \<open>OverflowError\<close>
  for an argument outside the range of a C \<open>int\<close> and \<open>ValueError\<close> for a year outside
  1..9999, a month outside 1..12 or a day the month does not have. \<open>get_target_date\<close>
  reads \<open>date.today()\<close>, which is a parameter here; its two \<open>while\<close> loops are
  \<open>wrap_above\<close> and \<open>wrap_below\<close>.
\<close>

record date =
  year :: int
  month :: int
  day :: int

definition is_leap :: "int \<Rightarrow> bool" where
  "is_leap y \<longleftrightarrow> y mod 4 = 0 \<and> (y mod 100 \<noteq> 0 \<or> y mod 400 = 0)"

definition days_in_month :: "int \<Rightarrow> int \<Rightarrow> int" where
  "days_in_month y m =
     (if m = 2 then (if is_leap y then 29 else 28)
      else if m = 4 \<or> m = 6 \<or> m = 9 \<or> m = 11 then 30 else 31)"

definition date_new :: "int \<Rightarrow> int \<Rightarrow> int \<Rightarrow> py_error + date" where
  \<comment> \<open>\<open>date(year, month, day)\<close>\<close>
  "date_new y m d =
     (if \<not> (c_int y \<and> c_int m \<and> c_int d) then Inl OverflowError
      else if 1 \<le> y \<and> y \<le> 9999 \<and> 1 \<le> m \<and> m \<le> 12 \<and> 1 \<le> d \<and> d \<le> days_in_month y m
      then Inr \<lparr>year = y, month = m, day = d\<rparr>
      else Inl ValueError)"

function wrap_above :: "int \<times> int \<Rightarrow> int \<times> int" where
  \<comment> \<open>\<open>while month > 12: month -= 12; year += 1\<close>, on the pair (year, month)\<close>
  "wrap_above (y, m) = (if m > 12 then wrap_above (y + 1, m - 12) else (y, m))"
  by pat_completeness auto
termination
  by (relation "measure (\<lambda>(y, m). nat (m - 12))") auto

function wrap_below :: "int \<times> int \<Rightarrow> int \<times> int" where
  \<comment> \<open>\<open>while month < 1: month += 12; year -= 1\<close>\<close>
  "wrap_below (y, m) = (if m < 1 then wrap_below (y - 1, m + 12) else (y, m))"
  by pat_completeness auto
termination
  by (relation "measure (\<lambda>(y, m). nat (1 - m))") auto

declare wrap_above.simps [simp del] wrap_below.simps [simp del]

definition get_target_date :: "date \<Rightarrow> int \<Rightarrow> int \<Rightarrow> py_error + date" where
  "get_target_date today month_offset day_offset =
     (let target_day = day today + day_offset in
      case wrap_below (wrap_above (year today, month today + month_offset)) of
        (y, m) \<Rightarrow>
          (case date_new y m target_day of
             Inr d \<Rightarrow> Inr d
           | Inl ValueError \<Rightarrow> date_new y m 1
           | Inl e \<Rightarrow> Inl e))"

definition target_year :: "date \<Rightarrow> int \<Rightarrow> int" where
  \<comment> \<open>the year the two loops end with, in closed form (lemma \<open>wrap_months\<close>)\<close>
  "target_year today month_offset = year today + (month today + month_offset - 1) div 12"

definition target_month :: "date \<Rightarrow> int \<Rightarrow> int" where
  \<comment> \<open>the month the two loops end with, in closed form\<close>
  "target_month today month_offset = (month today + month_offset - 1) mod 12 + 1"

section \<open>The rule file\<close>

text \<open>
  \<open>invoices_config.json\<close> as \<open>json.load\<close> returns it. A value is \<open>None\<close>, a \<open>bool\<close>, an
  \<open>int\<close> or a \<open>str\<close>; floats and nested containers as field values are left out. An
  entry of the top-level list is a \<open>dict\<close> (its items as an association list) or a
  scalar; a top-level object is iterated by its keys, a top-level string by its characters.
  \<open>rules\<close> is the dictionary the loader builds for one sender; the table is a map from
  the lowercased sender address. \<open>rule_of_item\<close> is the body of the \<open>for item in data\<close>
  loop, \<open>build_table\<close> the loop; \<open>item.get\<close> on an entry that is not a \<open>dict\<close> and
  \<open>.lower()\<close> on a value that is not a \<open>str\<close> raise \<open>AttributeError\<close>, outside the
  \<open>try\<close>. The first component of the result of \<open>load_companies_from_json\<close> is what it
  prints.
\<close>

definition lower :: "string \<Rightarrow> string" where
  \<comment> \<open>\<open>str.lower()\<close> on ASCII\<close>
  "lower s =
     map (\<lambda>c. case map_of (zip ''ABCDEFGHIJKLMNOPQRSTUVWXYZ'' ''abcdefghijklmnopqrstuvwxyz'') c of
                Some l \<Rightarrow> l | None \<Rightarrow> c) s"

datatype jvalue = JNull | JBool bool | JInt int | JStr string

datatype jitem = JDict "(string \<times> jvalue) list" | JScalar jvalue

datatype jdata = JArray "jitem list" | JObject "string list" | JValue jvalue

datatype rule_file = Missing | Unreadable string | Parsed jdata

record rules =
  name :: jvalue
  folder_name :: jvalue
  month_offset :: jvalue
  day_offset :: jvalue
  use_subfolder :: bool
  numbered_files :: bool

definition truthy :: "jvalue \<Rightarrow> bool" where
  \<comment> \<open>\<open>bool(v)\<close>, as \<open>or\<close> and \<open>and\<close> test it\<close>
  "truthy v = (case v of JNull \<Rightarrow> False | JBool b \<Rightarrow> b | JInt i \<Rightarrow> i \<noteq> 0 | JStr s \<Rightarrow> s \<noteq> [])"

definition rule_of_item :: "jitem \<Rightarrow> py_error + (string \<times> rules)" where
  "rule_of_item item =
     (case item of
        JScalar v \<Rightarrow> Inl AttributeError
      | JDict kvs \<Rightarrow>
          (case (case map_of kvs ''sender_email'' of
                   None \<Rightarrow> Inr (lower [])
                 | Some (JStr s) \<Rightarrow> Inr (lower s)
                 | Some other \<Rightarrow> Inl AttributeError) of
             Inl e \<Rightarrow> Inl e
           | Inr sender \<Rightarrow>
               let folder = (case map_of kvs ''folder_name'' of
                               None \<Rightarrow> JStr []
                             | Some v \<Rightarrow> if truthy v then v else JStr []);
                   file_name = (case map_of kvs ''file_name'' of
                                  None \<Rightarrow> JStr ''NoName''
                                | Some v \<Rightarrow> if truthy v then v else JStr ''NoName'');
                   mo = (case map_of kvs ''month_offset'' of None \<Rightarrow> JInt 0 | Some v \<Rightarrow> v);
                   dof = (case map_of kvs ''day_offset'' of None \<Rightarrow> JInt 0 | Some v \<Rightarrow> v);
                   use_sub = truthy folder
               in Inr (sender,
                       \<lparr>name = file_name, folder_name = folder, month_offset = mo,
                        day_offset = dof, use_subfolder = use_sub, numbered_files = True\<rparr>)))"

fun build_table :: "jitem list \<Rightarrow> (string \<rightharpoonup> rules) \<Rightarrow> py_error + (string \<rightharpoonup> rules)" where
  "build_table [] result = Inr result"
| "build_table (item # items) result =
     (case rule_of_item item of
        Inl e \<Rightarrow> Inl e
      | Inr (sender, r) \<Rightarrow> build_table items (result(sender \<mapsto> r)))"

definition iterate :: "jdata \<Rightarrow> py_error + jitem list" where
  \<comment> \<open>what \<open>for item in data\<close> goes through\<close>
  "iterate data =
     (case data of
        JArray items \<Rightarrow> Inr items
      | JObject keys \<Rightarrow> Inr (map (\<lambda>k. JScalar (JStr k)) keys)
      | JValue (JStr s) \<Rightarrow> Inr (map (\<lambda>c. JScalar (JStr [c])) s)
      | JValue other \<Rightarrow> Inl TypeError)"

definition load_companies_from_json ::
  "rule_file \<Rightarrow> string list \<times> (py_error + (string \<rightharpoonup> rules))" where
  "load_companies_from_json config =
     (case config of
        Missing \<Rightarrow> ([''No invoices_config.json found. Using empty dictionary.''], Inr Map.empty)
      | Unreadable e \<Rightarrow> ([''Failed to load invoices_config.json: '' @ e], Inr Map.empty)
      | Parsed data \<Rightarrow>
          ([], case iterate data of
                 Inl e \<Rightarrow> Inl e
               | Inr items \<Rightarrow> build_table items Map.empty))"

definition entry :: "string \<Rightarrow> string \<Rightarrow> jitem" where
  \<comment> \<open>an entry as the dialog of the application writes it, for the examples\<close>
  "entry sender prefix =
     JDict [(''sender_email'', JStr sender), (''folder_name'', JStr []),
            (''file_name'', JStr prefix), (''month_offset'', JInt 0), (''day_offset'', JInt 0)]"

definition numbered_rule :: "string \<Rightarrow> rules" where
  \<comment> \<open>the rules the loader builds from such an entry\<close>
  "numbered_rule prefix =
     \<lparr>name = JStr prefix, folder_name = JStr [], month_offset = JInt 0, day_offset = JInt 0,
      use_subfolder = False, numbered_files = True\<rparr>"

section \<open>The invoice classifier\<close>

text \<open>
  The two patterns of \<open>process_files\<close>, as matchers on ASCII names.

  \<open>email_pattern\<close> is \<open>^([a-zA-Z0-9_.+-]+@[a-zA-Z0-9-]+\.[a-zA-Z0-9-.]+)_\<close>. Each of its three
  character classes excludes the character that has to follow the run (\<open>@\<close>, the dot, the
  underscore), so a match can only take each run as long as it goes, and \<open>email_match\<close>
  returns group 1 of the one possible match. Lemma \<open>email_match_iff\<close> below states this
  against the pattern read as a language.

  The number pattern is \<open>^<re.escape(company_name)>-(\d+)\b\<close>: the name starts with the
  literal prefix and a hyphen, then comes a run of digits, and the run ends at the end of
  the name or before a character that is not a word character (a shorter run would end
  before a digit, which is a word character). \<open>number_match\<close> returns \<open>int(m.group(1))\<close>;
  lemma \<open>number_match_iff\<close> states it against the pattern read as a language.
  \<open>py_max\<close> is \<open>max(numbers, default=0)\<close>, and \<open>next_number\<close> the variable of that name.
\<close>

definition is_alnum :: "char \<Rightarrow> bool" where
  "is_alnum c \<longleftrightarrow>
     c \<in> set ''abcdefghijklmnopqrstuvwxyzABCDEFGHIJKLMNOPQRSTUVWXYZ0123456789''"

definition isdigit :: "char \<Rightarrow> bool" where
  "isdigit c \<longleftrightarrow> c \<in> set ''0123456789''"

definition is_word :: "char \<Rightarrow> bool" where
  "is_word c \<longleftrightarrow> is_alnum c \<or> c = CHR ''_''"

definition is_local_char :: "char \<Rightarrow> bool" where
  "is_local_char c \<longleftrightarrow> is_alnum c \<or> c \<in> set ''_.+-''"

definition is_domain_char :: "char \<Rightarrow> bool" where
  "is_domain_char c \<longleftrightarrow> is_alnum c \<or> c = CHR ''-''"

definition is_tld_char :: "char \<Rightarrow> bool" where
  "is_tld_char c \<longleftrightarrow> is_alnum c \<or> c \<in> set ''-.''"

definition email_match :: "string \<Rightarrow> string option" where
  "email_match filename =
     (let local_part = takeWhile is_local_char filename;
          r1 = dropWhile is_local_char filename
      in case r1 of
           [] \<Rightarrow> None
         | c1 # r1' \<Rightarrow>
             if local_part = [] \<or> c1 \<noteq> CHR ''@'' then None
             else
               let dom = takeWhile is_domain_char r1';
                   r2 = dropWhile is_domain_char r1'
               in case r2 of
                    [] \<Rightarrow> None
                  | c2 # r2' \<Rightarrow>
                      if dom = [] \<or> c2 \<noteq> CHR ''.'' then None
                      else
                        let tld = takeWhile is_tld_char r2';
                            r3 = dropWhile is_tld_char r2'
                        in case r3 of
                             [] \<Rightarrow> None
                           | c3 # r3' \<Rightarrow>
                               if tld = [] \<or> c3 \<noteq> CHR ''_'' then None
                               else Some (local_part @ ''@'' @ dom @ ''.'' @ tld))"

definition digit_value :: "char \<Rightarrow> nat" where
  \<comment> \<open>the value of a decimal digit\<close>
  "digit_value c =
     (case map_of (zip ''0123456789'' [0, 1, 2, 3, 4, 5, 6, 7, 8, 9]) c of
        Some v \<Rightarrow> v | None \<Rightarrow> 0)"

definition int_of_digits :: "string \<Rightarrow> nat" where
  \<comment> \<open>\<open>int(ds)\<close> of a run of digits\<close>
  "int_of_digits ds = foldl (\<lambda>n c. 10 * n + digit_value c) 0 ds"

definition number_match :: "string \<Rightarrow> string \<Rightarrow> nat option" where
  "number_match company_name f =
     (let pre = company_name @ ''-'' in
      if take (length pre) f \<noteq> pre then None
      else
        let ds = takeWhile isdigit (drop (length pre) f);
            rest = dropWhile isdigit (drop (length pre) f)
        in if ds = [] then None
           else (case rest of
                   [] \<Rightarrow> Some (int_of_digits ds)
                 | c # cs \<Rightarrow> if is_word c then None else Some (int_of_digits ds)))"

definition py_max :: "nat list \<Rightarrow> nat \<Rightarrow> nat" where
  "py_max numbers dflt =
     (case numbers of [] \<Rightarrow> dflt | n # ns \<Rightarrow> foldl (\<lambda>best x. if x > best then x else best) n ns)"

definition next_number :: "string \<Rightarrow> string list \<Rightarrow> nat" where
  "next_number company_name existing_files =
     py_max (List.map_filter (number_match company_name) existing_files) 0 + 1"

text \<open>
  The file system, as far as \<open>process_files\<close> touches it: the regular files with their
  contents, keyed by path, and the directories. Paths are compared as strings; a path is
  joined to a relative name with the backslash (\<open>base_dir\<close> is a Windows path), and both
  the backslash and the slash separate components. \<open>listdir\<close> gives the names directly
  under a directory, in the order of the two lists (\<open>os.listdir\<close> promises no order).
  \<open>makedirs\<close> is \<open>os.makedirs(p, exist_ok=True)\<close>: it raises when \<open>p\<close> or one of its ancestors
  is a regular file. \<open>shutil_move\<close> is \<open>shutil.move\<close> onto a path that does not exist yet,
  as \<open>process_files\<close> calls it: a rename, which raises when the parent of the destination
  is not a directory. The subclasses of \<open>OSError\<close> are not told apart.
\<close>

definition is_sep :: "char \<Rightarrow> bool" where
  "is_sep c \<longleftrightarrow> c = CHR 0x5C \<or> c = CHR ''/''"

record filesystem =
  files :: "(string \<times> string) list"
  dirs :: "string list"

definition isfile :: "filesystem \<Rightarrow> string \<Rightarrow> bool" where
  "isfile fs p \<longleftrightarrow> map_of (files fs) p \<noteq> None"

definition path_exists :: "filesystem \<Rightarrow> string \<Rightarrow> bool" where
  "path_exists fs p \<longleftrightarrow> isfile fs p \<or> p \<in> set (dirs fs)"

definition child_name :: "string \<Rightarrow> string \<Rightarrow> string option" where
  \<comment> \<open>the name of \<open>p\<close> in the directory \<open>d\<close>, when \<open>p\<close> lies directly in it\<close>
  "child_name d p =
     (let pre = d @ [CHR 0x5C]; n = drop (length pre) p
      in if take (length pre) p = pre \<and> n \<noteq> [] \<and> \<not> (\<exists>c \<in> set n. is_sep c)
         then Some n else None)"

definition listdir :: "filesystem \<Rightarrow> string \<Rightarrow> py_error + string list" where
  "listdir fs d =
     (if d \<in> set (dirs fs)
      then Inr (List.map_filter (child_name d) (map fst (files fs) @ dirs fs))
      else Inl OSError)"

definition ancestors :: "string \<Rightarrow> string list" where
  \<comment> \<open>the path cut before each of its separators, shortest first, and the path itself\<close>
  "ancestors p = map (\<lambda>i. take i p) (filter (\<lambda>i. 0 < i \<and> is_sep (p ! i)) [0..<length p]) @ [p]"

definition makedirs :: "filesystem \<Rightarrow> string \<Rightarrow> py_error + filesystem" where
  "makedirs fs p =
     (if \<exists>q \<in> set (ancestors p). isfile fs q then Inl OSError
      else Inr (fs\<lparr>dirs := dirs fs @ filter (\<lambda>q. q \<notin> set (dirs fs)) (ancestors p)\<rparr>))"

definition dirname :: "string \<Rightarrow> string" where
  \<comment> \<open>the path up to its last separator\<close>
  "dirname p = rev (drop 1 (dropWhile (\<lambda>c. \<not> is_sep c) (rev p)))"

definition shutil_move :: "filesystem \<Rightarrow> string \<Rightarrow> string \<Rightarrow> py_error + filesystem" where
  "shutil_move fs src dst =
     (case map_of (files fs) src of
        None \<Rightarrow> Inl OSError
      | Some content \<Rightarrow>
          if dirname dst \<in> set (dirs fs)
          then Inr (fs\<lparr>files := filter (\<lambda>(q, c). q \<noteq> src \<and> q \<noteq> dst) (files fs) @ [(dst, content)]\<rparr>)
          else Inl OSError)"

text \<open>
  \<open>process_files\<close>. \<open>destination\<close> is the part of the loop body from \<open>get_target_date\<close> to
  \<open>new_filename\<close>: it returns the file system after \<open>os.makedirs\<close>, the target folder and
  the new name, or the exception raised on the way (by \<open>get_target_date\<close>, by an offset
  that is not an \<open>int\<close>, by \<open>os.path.join\<close> or \<open>re.escape\<close> on a value that is not a
  \<open>str\<close>, by \<open>os.makedirs\<close> or \<open>os.listdir\<close>). \<open>process_file\<close> is the whole body for one
  name of the listing, \<open>process_loop\<close> the loop; an exception ends the loop and leaves
  \<open>process_files\<close> with the file system and the output as they are then. \<open>strftime('%B')\<close>
  gives the English month names. The date of the run is a parameter.
\<close>

definition base_dir :: string where
  "base_dir = ''D:'' @ [CHR 0x5C] @ ''Sync'' @ [CHR 0x5C] @ ''Businesses'' @ [CHR 0x5C]
                @ ''Worms Direct'' @ [CHR 0x5C] @ ''Invoices''"

definition month_name :: "int \<Rightarrow> string" where
  "month_name m =
     [''January'', ''February'', ''March'', ''April'', ''May'', ''June'', ''July'',
      ''August'', ''September'', ''October'', ''November'', ''December''] ! nat (m - 1)"

definition as_int :: "jvalue \<Rightarrow> py_error + int" where
  \<comment> \<open>an operand of \<open>today.month + month_offset\<close>: an \<open>int\<close> (a \<open>bool\<close> is one), else \<open>TypeError\<close>\<close>
  "as_int v = (case v of JInt i \<Rightarrow> Inr i | JBool b \<Rightarrow> Inr (if b then 1 else 0) | other \<Rightarrow> Inl TypeError)"

definition as_str :: "jvalue \<Rightarrow> py_error + string" where
  \<comment> \<open>an argument of \<open>os.path.join\<close> or \<open>re.escape\<close>: a \<open>str\<close>, else \<open>TypeError\<close>\<close>
  "as_str v = (case v of JStr s \<Rightarrow> Inr s | other \<Rightarrow> Inl TypeError)"

definition py_str :: "jvalue \<Rightarrow> string" where
  \<comment> \<open>how an f-string prints the value\<close>
  "py_str v =
     (case v of JStr s \<Rightarrow> s | JInt i \<Rightarrow> str_int i | JBool b \<Rightarrow> (if b then ''True'' else ''False'')
      | JNull \<Rightarrow> ''None'')"

definition destination ::
  "date \<Rightarrow> rules \<Rightarrow> string \<Rightarrow> filesystem \<Rightarrow> (py_error \<times> filesystem) + (filesystem \<times> string \<times> string)" where
  "destination today r filename fs =
     (case (case as_int (month_offset r) of
              Inl e \<Rightarrow> Inl e
            | Inr mo \<Rightarrow>
                (case as_int (day_offset r) of
                   Inl e \<Rightarrow> Inl e
                 | Inr dof \<Rightarrow> get_target_date today mo dof)) of
        Inl e \<Rightarrow> Inl (e, fs)
      | Inr target_date \<Rightarrow>
          let month_str = month_name (month target_date);
              year_str = str_int (year target_date);
              dated = os_path_join (os_path_join base_dir year_str) month_str
          in (case (if use_subfolder r \<and> truthy (folder_name r)
                    then (case as_str (folder_name r) of
                            Inl e \<Rightarrow> Inl e
                          | Inr sub \<Rightarrow> Inr (os_path_join dated sub))
                    else Inr dated) of
                Inl e \<Rightarrow> Inl (e, fs)
              | Inr target_folder \<Rightarrow>
                  (case makedirs fs target_folder of
                     Inl e \<Rightarrow> Inl (e, fs)
                   | Inr fs1 \<Rightarrow>
                       let ext = snd (splitext filename) in
                       if numbered_files r
                       then (case listdir fs1 target_folder of
                               Inl e \<Rightarrow> Inl (e, fs1)
                             | Inr existing_files \<Rightarrow>
                                 (case as_str (name r) of
                                    Inl e \<Rightarrow> Inl (e, fs1)
                                  | Inr company_name \<Rightarrow>
                                      Inr (fs1, target_folder,
                                           company_name @ ''-''
                                             @ str_nat (next_number company_name existing_files)
                                             @ ext)))
                       else Inr (fs1, target_folder, py_str (name r) @ ext))))"

definition process_file ::
  "date \<Rightarrow> (string \<rightharpoonup> rules) \<Rightarrow> string \<Rightarrow> filesystem \<times> string list
     \<Rightarrow> (py_error \<times> filesystem \<times> string list) + (filesystem \<times> string list)" where
  "process_file today companies filename = (\<lambda>(fs, out).
     let file_path = os_path_join base_dir filename in
     if \<not> isfile fs file_path then Inr (fs, out @ [''Skipping non-file: '' @ filename])
     else
       (case email_match filename of
          None \<Rightarrow> Inr (fs, out @ [''Email address not found in filename: '' @ filename])
        | Some addr \<Rightarrow>
            let email_address = lower addr in
            (case companies email_address of
               None \<Rightarrow> Inr (fs, out @ [''Email address not recognized: '' @ email_address])
             | Some r \<Rightarrow>
                 (case destination today r filename fs of
                    Inl (e, fs1) \<Rightarrow> Inl (e, fs1, out)
                  | Inr (fs1, target_folder, new_filename) \<Rightarrow>
                      let new_file_path = os_path_join target_folder new_filename in
                      if path_exists fs1 new_file_path
                      then Inr (fs1, out @ [''File exists (not overwritten): '' @ new_file_path])
                      else
                        (case shutil_move fs1 file_path new_file_path of
                           Inl e \<Rightarrow> Inl (e, fs1, out)
                         | Inr fs2 \<Rightarrow> Inr (fs2, out @ [''Moved file to: '' @ new_file_path]))))))"

fun process_loop ::
  "date \<Rightarrow> (string \<rightharpoonup> rules) \<Rightarrow> string list \<Rightarrow> filesystem \<times> string list
     \<Rightarrow> (py_error \<times> filesystem \<times> string list) + (filesystem \<times> string list)" where
  "process_loop today companies [] acc = Inr acc"
| "process_loop today companies (filename # filenames) acc =
     (case process_file today companies filename acc of
        Inl err \<Rightarrow> Inl err
      | Inr acc' \<Rightarrow> process_loop today companies filenames acc')"

definition process_files ::
  "date \<Rightarrow> rule_file \<Rightarrow> filesystem \<Rightarrow> py_error option \<times> filesystem \<times> string list" where
  "process_files today config fs =
     (case load_companies_from_json config of
        (printed, Inl e) \<Rightarrow> (Some e, fs, printed)
      | (printed, Inr companies) \<Rightarrow>
          (case listdir fs base_dir of
             Inl e \<Rightarrow> (Some e, fs, printed)
           | Inr filenames \<Rightarrow>
               (case process_loop today companies filenames (fs, printed) of
                  Inl (e, fs', out) \<Rightarrow> (Some e, fs', out)
                | Inr (fs', out) \<Rightarrow> (None, fs', out))))"

text \<open>
  For the statements about the classifier: a name that \<open>process_files\<close> reports and
  leaves alone, the line it prints for it, the file system a run ends with (also when an
  exception ends it), and the objects the examples use.
\<close>

definition unrecognised :: "(string \<rightharpoonup> rules) \<Rightarrow> string \<Rightarrow> bool" where
  "unrecognised companies filename \<longleftrightarrow>
     (case email_match filename of None \<Rightarrow> True | Some addr \<Rightarrow> companies (lower addr) = None)"

definition report_line :: "string \<Rightarrow> string" where
  "report_line filename =
     (case email_match filename of
        None \<Rightarrow> ''Email address not found in filename: '' @ filename
      | Some addr \<Rightarrow> ''Email address not recognized: '' @ lower addr)"

definition final_fs ::
  "(py_error \<times> filesystem \<times> string list) + (filesystem \<times> string list) \<Rightarrow> filesystem" where
  "final_fs res = (case res of Inl (e, fs, out) \<Rightarrow> fs | Inr (fs, out) \<Rightarrow> fs)"

definition today0 :: date where
  "today0 = \<lparr>year = 2024, month = 3, day = 15\<rparr>"

definition march :: string where
  "march = os_path_join (os_path_join base_dir ''2024'') ''March''"

definition fs_conflict :: filesystem where
  "fs_conflict =
     \<lparr>files = [(os_path_join base_dir ''alice@x.com_Invoice.pdf'', ''%PDF''),
               (os_path_join march ''sub/Alice-1.pdf'', ''old'')],
      dirs = ancestors march @ [os_path_join march ''sub'']\<rparr>"

definition fs_numbered :: filesystem where
  "fs_numbered =
     \<lparr>files = [(os_path_join base_dir ''alice@x.com_Invoice.pdf'', ''%PDF''),
               (os_path_join base_dir ''notes.txt'', ''hello''),
               (os_path_join march ''Alice-2.pdf'', ''two''),
               (os_path_join march ''Alice-7_old.pdf'', ''seven'')],
      dirs = ancestors march\<rparr>"

definition alice_only :: "string \<rightharpoonup> rules" where
  "alice_only = [''alice@x.com'' \<mapsto> numbered_rule ''Alice'']"

definition alice_sub :: "string \<rightharpoonup> rules" where
  "alice_sub = [''alice@x.com'' \<mapsto> numbered_rule ''sub/Alice'']"

definition sub_alice_file :: rule_file where
  "sub_alice_file = Parsed (JArray [entry ''alice@x.com'' ''sub/Alice''])"

definition alice_file :: rule_file where
  "alice_file = Parsed (JArray [entry ''alice@x.com'' ''Alice''])"

section \<open>Theorems\<close>

lemma rev_dropWhile_takeWhile:
  "xs = rev (dropWhile P (rev xs)) @ rev (takeWhile P (rev xs))"
  by (metis rev_append rev_rev_ident takeWhile_dropWhile_id)

lemma strip_decompose:
  "\<exists>pre post. s = pre @ strip s @ post \<and> (\<forall>c \<in> set pre. isspace c) \<and> (\<forall>c \<in> set post. isspace c)"
proof -
  let ?a = "takeWhile isspace s"
  let ?m = "dropWhile isspace s"
  let ?b = "rev (takeWhile isspace (rev ?m))"
  have m: "?m = strip s @ ?b"
    unfolding strip_def by (rule rev_dropWhile_takeWhile)
  have "s = ?a @ ?m" by simp
  with m have "s = ?a @ strip s @ ?b" by simp
  moreover have "\<forall>c \<in> set ?a. isspace c"
    by (auto dest: set_takeWhileD)
  moreover have "\<forall>c \<in> set ?b. isspace c"
    by (auto dest: set_takeWhileD)
  ultimately show ?thesis by blast
qed

lemma strip_no_leading_space: "strip s \<noteq> [] \<Longrightarrow> \<not> isspace (hd (strip s))"
proof -
  assume ne: "strip s \<noteq> []"
  let ?m = "dropWhile isspace s"
  have mne: "?m \<noteq> []"
    using ne by (cases "?m = []") (simp_all add: strip_def)
  then have h: "\<not> isspace (hd ?m)" by (rule hd_dropWhile)
  have "?m = strip s @ rev (takeWhile isspace (rev ?m))"
    unfolding strip_def by (rule rev_dropWhile_takeWhile)
  then have "hd ?m = hd (strip s)" using ne by (metis hd_append2)
  with h show ?thesis by simp
qed

lemma strip_no_trailing_space: "strip s \<noteq> [] \<Longrightarrow> \<not> isspace (last (strip s))"
proof -
  assume ne: "strip s \<noteq> []"
  let ?r = "rev (dropWhile isspace s)"
  have "dropWhile isspace ?r \<noteq> []" using ne by (simp add: strip_def)
  then have "\<not> isspace (hd (dropWhile isspace ?r))" by (rule hd_dropWhile)
  moreover have "last (strip s) = hd (dropWhile isspace ?r)"
    using ne by (simp add: strip_def last_rev)
  ultimately show ?thesis by simp
qed

lemma set_strip_subset: "set (strip s) \<subseteq> set s"
proof -
  have "set (strip s) \<subseteq> set (dropWhile isspace s)"
    unfolding strip_def using set_dropWhileD by fastforce
  also have "\<dots> \<subseteq> set s" using set_dropWhileD by fastforce
  finally show ?thesis .
qed

lemma re_sub_invalid_clean: "set (re_sub_invalid s) \<inter> set invalid_chars = {}"
  by (auto simp: re_sub_invalid_def invalid_chars_def)

lemma same_schedule_refl: "same_schedule s s"
  by (simp add: same_schedule_def)

lemma same_schedule_trans: "same_schedule a b \<Longrightarrow> same_schedule b c \<Longrightarrow> same_schedule a c"
  by (simp add: same_schedule_def)

lemma same_schedule_logging: "same_schedule s (logging l m s)"
  by (simp add: same_schedule_def logging_def)

lemma save_processed_uid_cases:
  "save_processed_uid env u s =
     (case ledger_error env u of
        None \<Rightarrow> Inr (logging INFO (''Saved processed UID: '' @ u)
                      (s\<lparr>processed_uids_file := processed_uids_file s @ [u],
                         processed_uids := insert u (processed_uids s)\<rparr>))
      | Some e \<Rightarrow> Inr (logging ERROR (''Failed to save processed UID '' @ u @ '': '' @ e) s))"
  by (simp add: save_processed_uid_def split: option.splits)

lemma save_processed_uid_never_raises: "\<exists>s'. save_processed_uid env u s = Inr s'"
  by (simp add: save_processed_uid_cases split: option.splits)

lemma save_processed_uid_keeps:
  assumes "save_processed_uid env u s = Inr s'"
  shows "same_schedule s s'" and "processed_uids s \<subseteq> processed_uids s'"
    and "disk s' = disk s"
    and "\<exists>new. processed_uids_file s' = processed_uids_file s @ new \<and> set new \<subseteq> {u}"
  using assms
  by (auto simp: save_processed_uid_cases same_schedule_def logging_def split: option.splits)

lemma save_attachment_keeps:
  assumes "save_attachment env msg subj att (s, n) = (s', n')"
  shows "same_schedule s s'" and "processed_uids s' = processed_uids s"
    and "processed_uids_file s' = processed_uids_file s"
  using assms
  by (auto simp: save_attachment_def Let_def same_schedule_def logging_def
           split: if_splits option.splits prod.splits)

lemma save_attachments_keeps:
  "save_attachments env msg subj atts (s, n) = (s', n') \<Longrightarrow>
     same_schedule s s' \<and> processed_uids s' = processed_uids s \<and>
     processed_uids_file s' = processed_uids_file s"
proof (induction atts arbitrary: s n)
  case Nil
  then show ?case by (simp add: same_schedule_refl)
next
  case (Cons att atts)
  obtain s1 n1 where step: "save_attachment env msg subj att (s, n) = (s1, n1)"
    by (cases "save_attachment env msg subj att (s, n)")
  with Cons.prems have rest: "save_attachments env msg subj atts (s1, n1) = (s', n')"
    by simp
  from Cons.IH [OF rest] save_attachment_keeps [OF step] show ?case
    by (auto intro: same_schedule_trans)
qed

lemma ledger_grows_refl: "ledger_grows s s"
  by (simp add: ledger_grows_def)

lemma ledger_grows_trans:
  assumes "ledger_grows a b" and "ledger_grows b c"
  shows "ledger_grows a c"
proof -
  from assms obtain n1 n2 where
    f1: "processed_uids_file b = processed_uids_file a @ n1" "set n1 \<inter> processed_uids a = {}"
    and f2: "processed_uids_file c = processed_uids_file b @ n2" "set n2 \<inter> processed_uids b = {}"
    and sub: "processed_uids a \<subseteq> processed_uids b" "processed_uids b \<subseteq> processed_uids c"
    by (auto simp: ledger_grows_def)
  have "processed_uids_file c = processed_uids_file a @ (n1 @ n2)"
    using f1 f2 by simp
  moreover have "set (n1 @ n2) \<inter> processed_uids a = {}"
    using f1 f2 sub by auto
  ultimately show ?thesis
    using sub unfolding ledger_grows_def by blast
qed

lemma ledger_grows_eq:
  "processed_uids s' = processed_uids s \<Longrightarrow> processed_uids_file s' = processed_uids_file s \<Longrightarrow>
   ledger_grows s s'"
  by (simp add: ledger_grows_def)

lemma process_message_skip:
  "uid msg \<in> processed_uids s \<Longrightarrow> process_message env msg (s, n) = Inr (s, n)"
  by (simp add: process_message_def)

lemma process_message_not_Inl: "process_message env msg acc \<noteq> Inl err"
proof (cases acc)
  case (Pair s n)
  show ?thesis
    using save_processed_uid_never_raises
    unfolding Pair process_message_def Let_def
    by (auto split: if_splits sum.splits prod.splits) (metis Inl_Inr_False)+
qed

lemma process_message_Inr:
  assumes "process_message env msg (s, n) = Inr (s', n')"
  shows "same_schedule s s'" and "ledger_grows s s'"
proof -
  show "same_schedule s s'"
  proof (cases "uid msg \<in> processed_uids s")
    case True
    with assms show ?thesis by (simp add: process_message_skip same_schedule_refl)
  next
    case False
    show ?thesis
    proof (cases "attachments msg = []")
      case True
      with False assms show ?thesis
        by (auto simp: process_message_def Let_def split: sum.splits
                 dest!: save_processed_uid_keeps(1)
                 intro: same_schedule_trans [OF same_schedule_logging])
    next
      case nonempty: False
      with False assms show ?thesis
        by (auto simp: process_message_def Let_def split: sum.splits prod.splits
                 dest!: save_processed_uid_keeps(1) save_attachments_keeps
                 intro: same_schedule_trans [OF same_schedule_logging] same_schedule_trans)
    qed
  qed
  show "ledger_grows s s'"
  proof (cases "uid msg \<in> processed_uids s")
    case True
    with assms show ?thesis by (simp add: process_message_skip ledger_grows_refl)
  next
    case False
    have step: "ledger_grows a b"
      if "save_processed_uid env (uid msg) a = Inr b"
        and "processed_uids a = processed_uids s" for a b
      using that False save_processed_uid_keeps(2,4) [OF that(1)]
      unfolding ledger_grows_def by auto
    show ?thesis
    proof (cases "attachments msg = []")
      case True
      with False assms obtain a where
        a: "a = logging INFO (''No attachments in UID '' @ uid msg @ ''. Skipping.'') s"
        and sv: "save_processed_uid env (uid msg) a = Inr s'"
        by (auto simp: process_message_def Let_def split: sum.splits)
      have "ledger_grows s a" by (simp add: a ledger_grows_def logging_def)
      moreover have "ledger_grows a s'"
        by (rule step [OF sv]) (simp add: a logging_def)
      ultimately show ?thesis by (rule ledger_grows_trans)
    next
      case nonempty: False
      with False assms obtain s1 s2 n2 subj where
        s1: "s1 = logging INFO (''Processing email UID: '' @ uid msg @ '', Subject: '' @ subj) s"
        and atts: "save_attachments env msg subj (attachments msg) (s1, n) = (s2, n2)"
        and sv: "save_processed_uid env (uid msg) s2 = Inr s'"
        by (auto simp: process_message_def Let_def split: sum.splits prod.splits)
      have p1: "processed_uids s1 = processed_uids s" "processed_uids_file s1 = processed_uids_file s"
        by (simp_all add: s1 logging_def)
      from save_attachments_keeps [OF atts] p1
      have p2: "processed_uids s2 = processed_uids s" "processed_uids_file s2 = processed_uids_file s"
        by simp_all
      have "ledger_grows s s2" using p2 by (rule ledger_grows_eq)
      moreover have "ledger_grows s2 s'" by (rule step [OF sv p2(1)])
      ultimately show ?thesis by (rule ledger_grows_trans)
    qed
  qed
qed

lemma process_messages_not_Inl: "process_messages env msgs acc \<noteq> Inl err"
  by (induction msgs arbitrary: acc) (auto simp: process_message_not_Inl split: sum.splits)

lemma process_messages_Inr:
  "process_messages env msgs (s, n) = Inr (s', n') \<Longrightarrow> same_schedule s s' \<and> ledger_grows s s'"
proof (induction msgs arbitrary: s n)
  case Nil
  then show ?case by (simp add: same_schedule_refl ledger_grows_refl)
next
  case (Cons msg msgs)
  then obtain s1 n1 where
    step: "process_message env msg (s, n) = Inr (s1, n1)"
    and rest: "process_messages env msgs (s1, n1) = Inr (s', n')"
    by (auto split: sum.splits)
  from process_message_Inr [OF step] Cons.IH [OF rest] show ?case
    by (blast intro: same_schedule_trans ledger_grows_trans)
qed

lemma process_messages_skip:
  "P \<subseteq> processed_uids s \<Longrightarrow>
   process_messages env (filter (\<lambda>m. uid m \<notin> P) msgs) (s, n) = process_messages env msgs (s, n)"
proof (induction msgs arbitrary: s n)
  case Nil
  then show ?case by simp
next
  case (Cons msg msgs)
  show ?case
  proof (cases "uid msg \<in> P")
    case True
    with Cons.prems have "uid msg \<in> processed_uids s" by blast
    then have "process_message env msg (s, n) = Inr (s, n)" by (rule process_message_skip)
    with True Cons.IH [OF Cons.prems] show ?thesis by simp
  next
    case False
    show ?thesis
    proof (cases "process_message env msg (s, n)")
      case (Inl err)
      with False show ?thesis by simp
    next
      case (Inr acc)
      obtain s1 n1 where acc: "acc = (s1, n1)" by (cases acc)
      from process_message_Inr(2) [OF Inr [unfolded acc]] Cons.prems
      have "P \<subseteq> processed_uids s1" by (auto simp: ledger_grows_def)
      from Cons.IH [OF this] False Inr acc show ?thesis by simp
    qed
  qed
qed

lemma same_settings_refl: "same_settings s s"
  by (simp add: same_settings_def)

lemma same_settings_trans: "same_settings a b \<Longrightarrow> same_settings b c \<Longrightarrow> same_settings a c"
  by (simp add: same_settings_def)

lemma same_schedule_settings: "same_schedule s s' \<Longrightarrow> same_settings s s'"
  by (simp add: same_schedule_def same_settings_def)

lemma session_loop:
  obtains s2 n where
    "process_messages env (fetched mb) (logging INFO (''Connected to folder: '' @ FOLDER s) s, 0)
       = Inr (s2, n)"
    and "same_schedule s s2" and "ledger_grows s s2"
proof -
  let ?s1 = "logging INFO (''Connected to folder: '' @ FOLDER s) s"
  obtain s2 n where loop: "process_messages env (fetched mb) (?s1, 0) = Inr (s2, n)"
    using process_messages_not_Inl [of env "fetched mb" "(?s1, 0)"]
    by (cases "process_messages env (fetched mb) (?s1, 0)") auto
  have "same_schedule s ?s1" by (rule same_schedule_logging)
  moreover have "ledger_grows s ?s1" by (simp add: ledger_grows_def logging_def)
  ultimately have "same_schedule s s2" "ledger_grows s s2"
    using process_messages_Inr [OF loop]
    by (blast intro: same_schedule_trans ledger_grows_trans)+
  with loop show ?thesis by (rule that)
qed

lemma body_end_facts:
  "same_settings s2 (body_end n s2)"
  "ledger_grows s2 (body_end n s2)"
  "failure_count (body_end n s2) = (if n > 0 then 0 else failure_count s2)"
  "current_backoff (body_end n s2) = (if n > 0 then initial_backoff s2 else current_backoff s2)"
  by (simp_all add: body_end_def same_settings_def ledger_grows_def logging_def showMessage_def)

lemma mailbox_session_cases:
  obtains s2 n where "same_schedule s s2" and "ledger_grows s s2"
    and "body_new_attachments mb env s =
           (if folder_error mb = None \<and> fetch_error mb = None then Some n else None)"
    and "mailbox_session mb env s =
           (case login_error mb of
              Some e \<Rightarrow> Inl (e, s)
            | None \<Rightarrow>
                (case folder_error mb of
                   Some e \<Rightarrow> Inl (case logout_error mb of Some e' \<Rightarrow> e' | None \<Rightarrow> e, s)
                 | None \<Rightarrow>
                     (case fetch_error mb of
                        Some e \<Rightarrow> Inl (case logout_error mb of Some e' \<Rightarrow> e' | None \<Rightarrow> e, s2)
                      | None \<Rightarrow>
                          (case logout_error mb of
                             Some e' \<Rightarrow> Inl (e', body_end n s2)
                           | None \<Rightarrow> Inr (body_end n s2)))))"
proof -
  obtain s2 n where
    loop: "process_messages env (fetched mb)
             (logging INFO (''Connected to folder: '' @ FOLDER s) s, 0) = Inr (s2, n)"
    and same: "same_schedule s s2" and grows: "ledger_grows s s2"
    by (rule session_loop)
  have body: "session_body mb env s =
           (case folder_error mb of
              Some e \<Rightarrow> Inl (e, s)
            | None \<Rightarrow>
                (case fetch_error mb of
                   Some e \<Rightarrow> Inl (e, s2)
                 | None \<Rightarrow> Inr (body_end n s2)))"
    using loop by (simp add: session_body_def body_end_def Let_def split: option.splits)
  have cnt: "body_new_attachments mb env s =
           (if folder_error mb = None \<and> fetch_error mb = None then Some n else None)"
    using loop by (simp add: body_new_attachments_def split: option.splits)
  have ses: "mailbox_session mb env s =
           (case login_error mb of
              Some e \<Rightarrow> Inl (e, s)
            | None \<Rightarrow>
                (case folder_error mb of
                   Some e \<Rightarrow> Inl (case logout_error mb of Some e' \<Rightarrow> e' | None \<Rightarrow> e, s)
                 | None \<Rightarrow>
                     (case fetch_error mb of
                        Some e \<Rightarrow> Inl (case logout_error mb of Some e' \<Rightarrow> e' | None \<Rightarrow> e, s2)
                      | None \<Rightarrow>
                          (case logout_error mb of
                             Some e' \<Rightarrow> Inl (e', body_end n s2)
                           | None \<Rightarrow> Inr (body_end n s2)))))"
    unfolding mailbox_session_def body by (simp split: option.splits)
  from same grows cnt ses show ?thesis by (rule that)
qed

lemma mailbox_session_Inl:
  assumes "mailbox_session mb env s = Inl (e, s')"
  shows "same_settings s s'" and "ledger_grows s s'"
    and "failure_count s' =
           (if login_error mb = None \<and> logout_error mb \<noteq> None \<and>
               (case body_new_attachments mb env s of None \<Rightarrow> False | Some n \<Rightarrow> 0 < n)
            then 0 else failure_count s)"
proof -
  obtain s2 n where same: "same_schedule s s2" and grows: "ledger_grows s s2"
    and cnt: "body_new_attachments mb env s =
           (if folder_error mb = None \<and> fetch_error mb = None then Some n else None)"
    and ses: "mailbox_session mb env s =
           (case login_error mb of
              Some e \<Rightarrow> Inl (e, s)
            | None \<Rightarrow>
                (case folder_error mb of
                   Some e \<Rightarrow> Inl (case logout_error mb of Some e' \<Rightarrow> e' | None \<Rightarrow> e, s)
                 | None \<Rightarrow>
                     (case fetch_error mb of
                        Some e \<Rightarrow> Inl (case logout_error mb of Some e' \<Rightarrow> e' | None \<Rightarrow> e, s2)
                      | None \<Rightarrow>
                          (case logout_error mb of
                             Some e' \<Rightarrow> Inl (e', body_end n s2)
                           | None \<Rightarrow> Inr (body_end n s2)))))"
    by (rule mailbox_session_cases)
  from assms ses consider "s' = s" "login_error mb \<noteq> None \<or> folder_error mb \<noteq> None"
    | "s' = s2" "login_error mb = None" "folder_error mb = None" "fetch_error mb \<noteq> None"
    | "s' = body_end n s2" "login_error mb = None" "folder_error mb = None"
      "fetch_error mb = None" "logout_error mb \<noteq> None"
    by (auto split: option.splits)
  then have "same_settings s s' \<and> ledger_grows s s' \<and>
    failure_count s' =
           (if login_error mb = None \<and> logout_error mb \<noteq> None \<and>
               (case body_new_attachments mb env s of None \<Rightarrow> False | Some n \<Rightarrow> 0 < n)
            then 0 else failure_count s)"
  proof cases
    case 1
    then show ?thesis
      using cnt by (auto simp: same_settings_refl ledger_grows_refl)
  next
    case 2
    then show ?thesis
      using cnt same grows by (auto simp: same_schedule_settings same_schedule_def)
  next
    case 3
    have "same_settings s (body_end n s2)"
      using same_schedule_settings [OF same] body_end_facts(1) by (rule same_settings_trans)
    moreover have "ledger_grows s (body_end n s2)"
      using grows body_end_facts(2) by (rule ledger_grows_trans)
    ultimately show ?thesis
      using 3 cnt same by (simp add: body_end_facts same_schedule_def)
  qed
  then show "same_settings s s'" and "ledger_grows s s'"
    and "failure_count s' =
           (if login_error mb = None \<and> logout_error mb \<noteq> None \<and>
               (case body_new_attachments mb env s of None \<Rightarrow> False | Some n \<Rightarrow> 0 < n)
            then 0 else failure_count s)"
    by simp_all
qed

lemma mailbox_session_Inr:
  assumes "mailbox_session mb env s = Inr s'"
  shows "same_settings s s'" and "ledger_grows s s'"
    and "\<exists>n s2. body_new_attachments mb env s = Some n \<and> login_error mb = None \<and>
                logout_error mb = None \<and> same_schedule s s2 \<and> s' = body_end n s2"
proof -
  obtain s2 n where same: "same_schedule s s2" and grows: "ledger_grows s s2"
    and cnt: "body_new_attachments mb env s =
           (if folder_error mb = None \<and> fetch_error mb = None then Some n else None)"
    and ses: "mailbox_session mb env s =
           (case login_error mb of
              Some e \<Rightarrow> Inl (e, s)
            | None \<Rightarrow>
                (case folder_error mb of
                   Some e \<Rightarrow> Inl (case logout_error mb of Some e' \<Rightarrow> e' | None \<Rightarrow> e, s)
                 | None \<Rightarrow>
                     (case fetch_error mb of
                        Some e \<Rightarrow> Inl (case logout_error mb of Some e' \<Rightarrow> e' | None \<Rightarrow> e, s2)
                      | None \<Rightarrow>
                          (case logout_error mb of
                             Some e' \<Rightarrow> Inl (e', body_end n s2)
                           | None \<Rightarrow> Inr (body_end n s2)))))"
    by (rule mailbox_session_cases)
  from assms ses have ok: "login_error mb = None" "folder_error mb = None"
    "fetch_error mb = None" "logout_error mb = None" and s': "s' = body_end n s2"
    by (auto split: option.splits)
  show "same_settings s s'"
    unfolding s' using same_schedule_settings [OF same] body_end_facts(1)
    by (rule same_settings_trans)
  show "ledger_grows s s'"
    unfolding s' using grows body_end_facts(2) by (rule ledger_grows_trans)
  show "\<exists>n s2. body_new_attachments mb env s = Some n \<and> login_error mb = None \<and>
                logout_error mb = None \<and> same_schedule s s2 \<and> s' = body_end n s2"
    using cnt ok s' same by auto
qed

lemma timer_start_ledger:
  "timer_start msec s = Inr s' \<Longrightarrow>
     processed_uids s' = processed_uids s \<and> processed_uids_file s' = processed_uids_file s"
  by (auto simp: timer_start_def split: if_splits)

lemma after_timer_start:
  "processed_uids s' = processed_uids s \<Longrightarrow>
   processed_uids (snd (case timer_start msec s of Inr s7 \<Rightarrow> (None, s7) | Inl err \<Rightarrow> (Some err, s')))
     = processed_uids s"
  "processed_uids_file s' = processed_uids_file s \<Longrightarrow>
   processed_uids_file (snd (case timer_start msec s of Inr s7 \<Rightarrow> (None, s7) | Inl err \<Rightarrow> (Some err, s')))
     = processed_uids_file s"
  by (auto split: sum.splits dest: timer_start_ledger)

lemma check_emails_handler_ledger:
  assumes "\<not> monitoring_paused s"
    and "mailbox_session mb env (logging INFO ''Checking for new emails...'' s) = Inl (e, s1)"
  shows "processed_uids (check_emails mb env s) = processed_uids s1"
    and "processed_uids_file (check_emails mb env s) = processed_uids_file s1"
  using assms
  by (simp_all add: check_emails_def check_emails_call_def Let_def after_timer_start
        logging_def showMessage_def)

lemma check_emails_ledger_grows: "ledger_grows s (check_emails mb env s)"
proof (cases "monitoring_paused s")
  case True
  then show ?thesis
    by (simp add: check_emails_def check_emails_call_def ledger_grows_def logging_def)
next
  case False
  let ?s0 = "logging INFO ''Checking for new emails...'' s"
  have s0: "ledger_grows s ?s0" by (simp add: ledger_grows_def logging_def)
  show ?thesis
  proof (cases "mailbox_session mb env ?s0")
    case (Inr s')
    with False have "check_emails mb env s = s'"
      by (simp add: check_emails_def check_emails_call_def)
    with mailbox_session_Inr(2) [OF Inr] s0 show ?thesis
      by (auto intro: ledger_grows_trans)
  next
    case (Inl err)
    obtain e s1 where err: "err = (e, s1)" by (cases err)
    have "ledger_grows s1 (check_emails mb env s)"
      using check_emails_handler_ledger [OF False Inl [unfolded err]]
      by (intro ledger_grows_eq) simp_all
    with mailbox_session_Inl(2) [OF Inl [unfolded err]] s0 show ?thesis
      by (blast intro: ledger_grows_trans)
  qed
qed

lemma backoff_fits:
  assumes "0 \<le> i" and "0 \<le> f" and "0 \<le> m" and "m * 1000 < 2 ^ 31"
  shows "timer_start (min (i * f ^ k) m * 1000) s = Inr (s\<lparr>timer := Some (min (i * f ^ k) m * 1000)\<rparr>)"
proof -
  define b where "b = min (i * f ^ k) m"
  have "0 \<le> i * f ^ k" using assms(1,2) by simp
  with assms(3) have lo: "0 \<le> b" by (simp add: b_def)
  have "b \<le> m" by (simp add: b_def)
  with assms(4) have hi: "b * 1000 < 2 ^ 31" by linarith
  from lo have nn: "\<not> b * 1000 < 0" by simp
  from lo have "- (2 ^ 31) \<le> b * 1000" by simp
  with hi have "c_int (b * 1000)" by (simp only: c_int_def simp_thms)
  with nn have "timer_start (b * 1000) s = Inr (s\<lparr>timer := Some (b * 1000)\<rparr>)"
    by (simp only: timer_start_def if_True if_False simp_thms)
  then show ?thesis by (simp only: b_def)
qed

lemma check_emails_failed_tick:
  assumes "tick_raises mb env s" and "timer_safe s"
  shows "fst (check_emails_call mb env s) = None"
    and "failure_count (check_emails mb env s) =
           (if raises_after_reset mb env s then 1 else failure_count s + 1)"
    and "current_backoff (check_emails mb env s) =
           min (initial_backoff s * backoff_factor s ^ failure_count (check_emails mb env s))
               (max_backoff s)"
    and "timer (check_emails mb env s) = Some (current_backoff (check_emails mb env s) * 1000)"
    and "initial_backoff (check_emails mb env s) = initial_backoff s"
    and "backoff_factor (check_emails mb env s) = backoff_factor s"
    and "max_backoff (check_emails mb env s) = max_backoff s"
    and "monitoring_paused (check_emails mb env s) = monitoring_paused s"
proof -
  let ?s0 = "logging INFO ''Checking for new emails...'' s"
  from assms(1) obtain e s1 where
    np: "\<not> monitoring_paused s" and ses: "mailbox_session mb env ?s0 = Inl (e, s1)"
    by (auto simp: tick_raises_def split: sum.splits)
  have "same_settings s ?s0" by (simp add: same_settings_def logging_def)
  with mailbox_session_Inl(1) [OF ses] have same: "same_settings s s1"
    by (blast intro: same_settings_trans)
  have fc0: "failure_count ?s0 = failure_count s" by (simp add: logging_def)
  have fc1: "failure_count s1 = (if raises_after_reset mb env s then 0 else failure_count s)"
    using mailbox_session_Inl(3) [OF ses] np fc0 by (simp add: raises_after_reset_def)
  define s2 where "s2 = showMessage ''Worms Direct Management'' (''Error: '' @ e)
                          (logging ERROR (''An error occurred while checking emails: '' @ e) s1)"
  define s3 where "s3 = s2\<lparr>failure_count := failure_count s2 + 1\<rparr>"
  define s4 where "s4 = s3\<lparr>current_backoff :=
                            min (initial_backoff s3 * backoff_factor s3 ^ failure_count s3)
                                (max_backoff s3)\<rparr>"
  define s5 where "s5 = logging INFO
                        (''Applying backoff: '' @ str_int (current_backoff s4) @ '' seconds'') s4"
  define s6 where "s6 = s5\<lparr>timer := None\<rparr>"
  note states = s6_def s5_def s4_def s3_def s2_def
  have call: "check_emails_call mb env s =
                (case timer_start (current_backoff s6 * 1000) s6 of
                   Inr s7 \<Rightarrow> (None, s7) | Inl err \<Rightarrow> (Some err, s6))"
    unfolding states using np ses
    by (simp only: check_emails_call_def Let_def if_False sum.case prod.case)
  have fields: "failure_count s6 = failure_count s1 + 1"
    "initial_backoff s6 = initial_backoff s1" "backoff_factor s6 = backoff_factor s1"
    "max_backoff s6 = max_backoff s1" "monitoring_paused s6 = monitoring_paused s1"
    by (simp_all add: states logging_def showMessage_def)
  have b: "current_backoff s6 =
             min (initial_backoff s * backoff_factor s ^ (failure_count s1 + 1)) (max_backoff s)"
    using same by (simp add: states logging_def showMessage_def same_settings_def)
  have start: "timer_start (current_backoff s6 * 1000) s6 =
                 Inr (s6\<lparr>timer := Some (current_backoff s6 * 1000)\<rparr>)"
    unfolding b using assms(2) by (intro backoff_fits) (simp_all add: timer_safe_def)
  have result: "check_emails_call mb env s = (None, s6\<lparr>timer := Some (current_backoff s6 * 1000)\<rparr>)"
    by (simp only: call start sum.case)
  show "fst (check_emails_call mb env s) = None"
    by (simp only: result fst_conv)
  have after: "check_emails mb env s = s6\<lparr>timer := Some (current_backoff s6 * 1000)\<rparr>"
    by (simp only: check_emails_def result snd_conv)
  show fc: "failure_count (check_emails mb env s) =
           (if raises_after_reset mb env s then 1 else failure_count s + 1)"
    by (simp add: after fields fc1)
  show "current_backoff (check_emails mb env s) =
           min (initial_backoff s * backoff_factor s ^ failure_count (check_emails mb env s))
               (max_backoff s)"
    by (simp add: after fields b)
  show "timer (check_emails mb env s) = Some (current_backoff (check_emails mb env s) * 1000)"
    by (simp add: after)
  show "initial_backoff (check_emails mb env s) = initial_backoff s"
    and "backoff_factor (check_emails mb env s) = backoff_factor s"
    and "max_backoff (check_emails mb env s) = max_backoff s"
    and "monitoring_paused (check_emails mb env s) = monitoring_paused s"
    using same by (simp_all add: after fields same_settings_def)
qed

lemma run_ticks_failures:
  "all_raise ticks s \<Longrightarrow> timer_safe s \<Longrightarrow>
   initial_backoff (run_ticks ticks s) = initial_backoff s \<and>
   backoff_factor (run_ticks ticks s) = backoff_factor s \<and>
   max_backoff (run_ticks ticks s) = max_backoff s \<and>
   (none_after_reset ticks s \<longrightarrow>
      failure_count (run_ticks ticks s) = failure_count s + length ticks) \<and>
   (ticks \<noteq> [] \<longrightarrow>
      current_backoff (run_ticks ticks s) =
        min (initial_backoff s * backoff_factor s ^ failure_count (run_ticks ticks s))
            (max_backoff s) \<and>
      timer (run_ticks ticks s) = Some (current_backoff (run_ticks ticks s) * 1000))"
proof (induction ticks arbitrary: s)
  case Nil
  then show ?case by simp
next
  case (Cons tick ticks)
  obtain mb env where tick: "tick = (mb, env)" by (cases tick)
  from Cons.prems have here: "tick_raises mb env s" and rest: "all_raise ticks (check_emails mb env s)"
    by (simp_all add: tick)
  note one = check_emails_failed_tick [OF here Cons.prems(2)]
  have safe: "timer_safe (check_emails mb env s)"
    using Cons.prems(2) one(5,6,7) by (simp add: timer_safe_def)
  have run: "run_ticks (tick # ticks) s = run_ticks ticks (check_emails mb env s)"
    using one(1) by (cases "check_emails_call mb env s") (simp add: tick check_emails_def)
  note ih = Cons.IH [OF rest safe]
  show ?case
  proof (cases "ticks = []")
    case True
    with one run show ?thesis by (simp add: tick)
  next
    case False
    with ih one run show ?thesis by (simp add: tick)
  qed
qed

lemmas poller_eval =
  check_emails_def check_emails_call_def mailbox_session_def session_body_def
  body_new_attachments_def tick_raises_def timer_start_def c_int_def logging_def
  showMessage_def new_downloader_def Let_def

lemmas sanitize_eval =
  sanitize_filename_def strip_def re_sub_invalid_def invalid_chars_def isspace_def
  os_path_join_def

lemma check_emails_completed_tick:
  assumes "tick_new_attachments mb env s = Some n"
  shows "fst (check_emails_call mb env s) = None"
    and "failure_count (check_emails mb env s) = (if 0 < n then 0 else failure_count s)"
    and "current_backoff (check_emails mb env s) =
           (if 0 < n then initial_backoff s else current_backoff s)"
    and "same_settings s (check_emails mb env s)"
proof -
  let ?s0 = "logging INFO ''Checking for new emails...'' s"
  from assms have np: "\<not> monitoring_paused s" and login: "login_error mb = None"
    and logout: "logout_error mb = None" and body: "body_new_attachments mb env ?s0 = Some n"
    by (auto simp: tick_new_attachments_def split: if_splits)
  obtain s2 k where same: "same_schedule ?s0 s2"
    and cnt: "body_new_attachments mb env ?s0 =
                (if folder_error mb = None \<and> fetch_error mb = None then Some k else None)"
    and ses: "mailbox_session mb env ?s0 =
           (case login_error mb of
              Some e \<Rightarrow> Inl (e, ?s0)
            | None \<Rightarrow>
                (case folder_error mb of
                   Some e \<Rightarrow> Inl (case logout_error mb of Some e' \<Rightarrow> e' | None \<Rightarrow> e, ?s0)
                 | None \<Rightarrow>
                     (case fetch_error mb of
                        Some e \<Rightarrow> Inl (case logout_error mb of Some e' \<Rightarrow> e' | None \<Rightarrow> e, s2)
                      | None \<Rightarrow>
                          (case logout_error mb of
                             Some e' \<Rightarrow> Inl (e', body_end k s2)
                           | None \<Rightarrow> Inr (body_end k s2)))))"
    by (rule mailbox_session_cases)
  from body cnt have ok: "folder_error mb = None" "fetch_error mb = None" and k: "k = n"
    by (auto split: if_splits)
  have "mailbox_session mb env ?s0 = Inr (body_end n s2)"
    by (simp add: ses login logout ok k)
  with np have call: "check_emails_call mb env s = (None, body_end n s2)"
    by (simp add: check_emails_call_def)
  then show "fst (check_emails_call mb env s) = None" by simp
  from call have after: "check_emails mb env s = body_end n s2"
    by (simp add: check_emails_def)
  have "same_schedule s ?s0" by (rule same_schedule_logging)
  with same have ss: "same_schedule s s2" by (rule same_schedule_trans [rotated])
  then show "failure_count (check_emails mb env s) = (if 0 < n then 0 else failure_count s)"
    and "current_backoff (check_emails mb env s) =
           (if 0 < n then initial_backoff s else current_backoff s)"
    by (simp_all add: after body_end_facts same_schedule_def)
  from same_schedule_settings [OF ss] body_end_facts(1) [of s2 n]
  show "same_settings s (check_emails mb env s)"
    unfolding after by (rule same_settings_trans)
qed

lemma run_ticks_step:
  "fst (check_emails_call mb env s) = None \<Longrightarrow>
   run_ticks ((mb, env) # ticks) s = run_ticks ticks (check_emails mb env s)"
  by (cases "check_emails_call mb env s") (simp add: check_emails_def)

lemma tick_raises_login:
  "login_error mb \<noteq> None \<Longrightarrow> tick_raises mb env s = (\<not> monitoring_paused s)"
  by (auto simp: tick_raises_def mailbox_session_def)

lemma tick_raises_logout:
  assumes "logout_error mb \<noteq> None"
  shows "tick_raises mb env s = (\<not> monitoring_paused s)"
proof -
  let ?s0 = "logging INFO ''Checking for new emails...'' s"
  obtain s2 k where
    ses: "mailbox_session mb env ?s0 =
           (case login_error mb of
              Some e \<Rightarrow> Inl (e, ?s0)
            | None \<Rightarrow>
                (case folder_error mb of
                   Some e \<Rightarrow> Inl (case logout_error mb of Some e' \<Rightarrow> e' | None \<Rightarrow> e, ?s0)
                 | None \<Rightarrow>
                     (case fetch_error mb of
                        Some e \<Rightarrow> Inl (case logout_error mb of Some e' \<Rightarrow> e' | None \<Rightarrow> e, s2)
                      | None \<Rightarrow>
                          (case logout_error mb of
                             Some e' \<Rightarrow> Inl (e', body_end k s2)
                           | None \<Rightarrow> Inr (body_end k s2)))))"
    by (rule mailbox_session_cases)
  from assms obtain e' where "logout_error mb = Some e'" by auto
  then show ?thesis
    unfolding tick_raises_def ses by (simp split: option.splits)
qed

lemma raises_after_reset_login:
  "login_error mb \<noteq> None \<Longrightarrow> \<not> raises_after_reset mb env s"
  by (simp add: raises_after_reset_def)

lemma timer_safe_settings: "same_settings s s' \<Longrightarrow> timer_safe s' = timer_safe s"
  by (simp add: same_settings_def timer_safe_def)

lemma login_failures_all_raise:
  assumes "list_all (\<lambda>tick. login_error (fst tick) \<noteq> None) ticks"
    and "\<not> monitoring_paused s" and "timer_safe s"
  shows "all_raise ticks s \<and> none_after_reset ticks s"
  using assms
proof (induction ticks arbitrary: s)
  case Nil
  then show ?case by simp
next
  case (Cons tick ticks)
  obtain mb env where tick: "tick = (mb, env)" by (cases tick)
  from Cons.prems(1) have login: "login_error mb \<noteq> None"
    and rest: "list_all (\<lambda>tick. login_error (fst tick) \<noteq> None) ticks"
    by (simp_all add: tick)
  from login Cons.prems(2) have here: "tick_raises mb env s"
    by (simp add: tick_raises_login)
  note one = check_emails_failed_tick [OF here Cons.prems(3)]
  have "\<not> monitoring_paused (check_emails mb env s)"
    using one(8) Cons.prems(2) by simp
  moreover have "timer_safe (check_emails mb env s)"
    using Cons.prems(3) one(5,6,7) by (simp add: timer_safe_def)
  ultimately have "all_raise ticks (check_emails mb env s) \<and>
                   none_after_reset ticks (check_emails mb env s)"
    using rest by (intro Cons.IH)
  with here login show ?case
    by (simp add: tick raises_after_reset_login)
qed

lemma fresh_fields:
  "failure_count fresh = 0" "initial_backoff fresh = 60" "backoff_factor fresh = 2"
  "max_backoff fresh = 3600" "polling_interval fresh = 600" "\<not> monitoring_paused fresh"
  "timer_safe fresh"
  by (simp_all add: fresh_def new_downloader_def timer_safe_def)

lemma refused_login: "login_error refused \<noteq> None"
  by (simp add: refused_def)

text \<open>
  Claim C10. For every input string, \<open>sanitize_filename\<close> returns the input with each of
  the nine characters of \<open>invalid_chars\<close> replaced by an underscore and the leading and
  trailing whitespace stripped: the replaced string is the result between two runs of
  whitespace, and the result neither starts nor ends with whitespace. The result never
  contains any of the nine characters.
\<close>

theorem sanitize_filename_replaces_and_strips:
  "(\<exists>pre post.
      map (\<lambda>c. if c \<in> set invalid_chars then CHR ''_'' else c) filename
        = pre @ sanitize_filename filename @ post \<and>
      (\<forall>c \<in> set pre. isspace c) \<and> (\<forall>c \<in> set post. isspace c)) \<and>
   (sanitize_filename filename = [] \<or>
      \<not> isspace (hd (sanitize_filename filename)) \<and>
      \<not> isspace (last (sanitize_filename filename))) \<and>
   set (sanitize_filename filename) \<inter> set invalid_chars = {}"
proof -
  have "\<exists>pre post. re_sub_invalid filename = pre @ sanitize_filename filename @ post \<and>
          (\<forall>c \<in> set pre. isspace c) \<and> (\<forall>c \<in> set post. isspace c)"
    unfolding sanitize_filename_def by (rule strip_decompose)
  moreover have "sanitize_filename filename = [] \<or>
      \<not> isspace (hd (sanitize_filename filename)) \<and>
      \<not> isspace (last (sanitize_filename filename))"
    unfolding sanitize_filename_def
    using strip_no_leading_space strip_no_trailing_space by blast
  moreover have "set (sanitize_filename filename) \<inter> set invalid_chars = {}"
    unfolding sanitize_filename_def
    using set_strip_subset [of "re_sub_invalid filename"] re_sub_invalid_clean [of filename]
    by blast
  ultimately show ?thesis
    unfolding re_sub_invalid_def by blast
qed

theorem sanitize_filename_replaces_and_strips_witness:
  "sanitize_filename ('' in:v/o'' @ [CHR 0x5C, CHR 0x22] @ ''ice?.pdf  '') = ''in_v_o__ice_.pdf'' \<and>
   set ''in_v_o__ice_.pdf'' \<inter> set invalid_chars = {}"
  using sanitize_filename_replaces_and_strips [of "'' in:v/o'' @ [CHR 0x5C, CHR 0x22] @ ''ice?.pdf  ''"]
  by (simp add: sanitize_filename_def strip_def re_sub_invalid_def invalid_chars_def isspace_def)

text \<open>
  Claim C8. \<open>save_processed_uid\<close> adds the UID to the in-memory set only once the append
  to the ledger file has succeeded: then the file has the UID as its new last line and the
  set holds it. If opening or writing the file raises, the set is unchanged and the error
  is logged. In neither case does an exception leave the function.
\<close>

theorem save_processed_uid_adds_after_append:
  "(ledger_error env u = None \<longrightarrow>
      save_processed_uid env u s =
        Inr (logging INFO (''Saved processed UID: '' @ u)
              (s\<lparr>processed_uids_file := processed_uids_file s @ [u],
                 processed_uids := insert u (processed_uids s)\<rparr>))) \<and>
   (\<forall>e. ledger_error env u = Some e \<longrightarrow>
      (\<exists>s'. save_processed_uid env u s = Inr s' \<and>
            processed_uids s' = processed_uids s \<and>
            logged s' = logged s @ [(ERROR, ''Failed to save processed UID '' @ u @ '': '' @ e)])) \<and>
   (\<forall>e. save_processed_uid env u s \<noteq> Inl e)"
  by (auto simp: save_processed_uid_cases logging_def split: option.splits)

theorem save_processed_uid_adds_after_append_witness:
  "(\<exists>s'. save_processed_uid (quiet_env\<lparr>ledger_error := (\<lambda>u. Some ''disk full'')\<rparr>) ''8'' fresh = Inr s' \<and>
         processed_uids s' = {''7''} \<and>
         logged s' = [(ERROR, ''Failed to save processed UID 8: disk full'')]) \<and>
   (\<exists>s'. save_processed_uid quiet_env ''8'' fresh = Inr s' \<and>
         processed_uids s' = {''7'', ''8''} \<and> processed_uids_file s' = [''7'', ''8''])"
proof -
  have a: "ledger_error (quiet_env\<lparr>ledger_error := (\<lambda>u. Some ''disk full'')\<rparr>) ''8'' = Some ''disk full''"
    by simp
  have b: "ledger_error quiet_env ''8'' = None"
    by (simp add: quiet_env_def)
  from save_processed_uid_adds_after_append
         [of "quiet_env\<lparr>ledger_error := (\<lambda>u. Some ''disk full'')\<rparr>" "''8''" fresh] a
  have "\<exists>s'. save_processed_uid (quiet_env\<lparr>ledger_error := (\<lambda>u. Some ''disk full'')\<rparr>) ''8'' fresh = Inr s' \<and>
         processed_uids s' = processed_uids fresh \<and>
         logged s' = logged fresh @ [(ERROR, ''Failed to save processed UID '' @ ''8'' @ '': '' @ ''disk full'')]"
    by blast
  moreover from save_processed_uid_adds_after_append [of quiet_env "''8''" fresh] b
  have "save_processed_uid quiet_env ''8'' fresh =
        Inr (logging INFO (''Saved processed UID: '' @ ''8'')
              (fresh\<lparr>processed_uids_file := processed_uids_file fresh @ [''8''],
                 processed_uids := insert ''8'' (processed_uids fresh)\<rparr>))"
    by blast
  ultimately show ?thesis
    by (auto simp: fresh_def new_downloader_def logging_def)
qed

text \<open>
  Claim C3 as stated gives, after N consecutive raising ticks, a failure counter of N and a
  backoff of \<open>min (initial_backoff * backoff_factor ^ N) max_backoff\<close>. The counter is reset
  only by a tick that saves a new attachment, and it is reset inside the \<open>with\<close> block,
  before the logout. With the default settings (60, 2, 3600) and a counter of 0 at the
  start: a raising tick, a tick that completes on an empty inbox and a raising tick (a run
  of N = 1) leave the counter at 2, the backoff at 240 and the timer at 240000 ms; a
  raising tick followed by a tick that saves an attachment and then raises at the logout
  (N = 2 consecutive raising ticks) leaves the counter at 1 and the backoff at 120.
\<close>

theorem consecutive_failures_counter_counterexample:
  "failure_count fresh = 0 \<and>
   tick_raises refused quiet_env fresh \<and>
   tick_new_attachments empty_inbox quiet_env (check_emails refused quiet_env fresh) = Some 0 \<and>
   tick_raises refused quiet_env
     (run_ticks [(refused, quiet_env), (empty_inbox, quiet_env)] fresh) \<and>
   failure_count
     (run_ticks [(refused, quiet_env), (empty_inbox, quiet_env), (refused, quiet_env)] fresh) = 2 \<and>
   current_backoff
     (run_ticks [(refused, quiet_env), (empty_inbox, quiet_env), (refused, quiet_env)] fresh) = 240 \<and>
   timer
     (run_ticks [(refused, quiet_env), (empty_inbox, quiet_env), (refused, quiet_env)] fresh)
     = Some 240000 \<and>
   all_raise [(refused, quiet_env), (logout_fails [invoice_mail ''8''], quiet_env)] fresh \<and>
   failure_count
     (run_ticks [(refused, quiet_env), (logout_fails [invoice_mail ''8''], quiet_env)] fresh) = 1 \<and>
   current_backoff
     (run_ticks [(refused, quiet_env), (logout_fails [invoice_mail ''8''], quiet_env)] fresh) = 120"
proof -
  let ?s1 = "check_emails refused quiet_env fresh"
  let ?s2 = "check_emails empty_inbox quiet_env ?s1"
  let ?s3 = "check_emails refused quiet_env ?s2"
  let ?late = "logout_fails [invoice_mail ''8'']"
  let ?t2 = "check_emails ?late quiet_env ?s1"
  have r1: "tick_raises refused quiet_env fresh"
    by (simp add: tick_raises_login refused_login fresh_fields)
  note f1 = check_emails_failed_tick [OF r1 fresh_fields(7)]
  have fc1: "failure_count ?s1 = 1"
    using f1(2) by (simp add: raises_after_reset_login refused_login fresh_fields)
  have np1: "\<not> monitoring_paused ?s1"
    using f1(8) by (simp add: fresh_fields)
  have safe1: "timer_safe ?s1"
    using f1(5,6,7) fresh_fields(7) by (simp add: timer_safe_def)
  have n2: "tick_new_attachments empty_inbox quiet_env ?s1 = Some 0"
    using np1
    by (simp add: tick_new_attachments_def body_new_attachments_def empty_inbox_def inbox_def)
  note c2 = check_emails_completed_tick [OF n2]
  have fc2: "failure_count ?s2 = 1"
    using c2(2) fc1 by simp
  have np2: "\<not> monitoring_paused ?s2"
    using c2(4) np1 by (simp add: same_settings_def)
  have safe2: "timer_safe ?s2"
    using c2(4) safe1 by (simp add: timer_safe_settings)
  have cfg2: "initial_backoff ?s2 = 60" "backoff_factor ?s2 = 2" "max_backoff ?s2 = 3600"
    using c2(4) f1(5,6,7) by (simp_all add: same_settings_def fresh_fields)
  have run2: "run_ticks [(refused, quiet_env), (empty_inbox, quiet_env)] fresh = ?s2"
    by (simp only: run_ticks_step [OF f1(1)] run_ticks_step [OF c2(1)] run_ticks.simps(1))
  have r3: "tick_raises refused quiet_env ?s2"
    using np2 by (simp add: tick_raises_login refused_login)
  note f3 = check_emails_failed_tick [OF r3 safe2]
  have fc3: "failure_count ?s3 = 2"
    using f3(2) fc2 by (simp add: raises_after_reset_login refused_login)
  have cb3: "current_backoff ?s3 = 240"
    using f3(3) by (simp add: fc3 cfg2)
  have tm3: "timer ?s3 = Some 240000"
    using f3(4) by (simp add: cb3)
  have run3: "run_ticks [(refused, quiet_env), (empty_inbox, quiet_env), (refused, quiet_env)] fresh
                = ?s3"
    by (simp only: run_ticks_step [OF f1(1)] run_ticks_step [OF c2(1)] run_ticks_step [OF f3(1)]
          run_ticks.simps(1))
  have l2: "tick_raises ?late quiet_env ?s1"
    using np1 by (simp add: tick_raises_logout logout_fails_def)
  have reset: "raises_after_reset ?late quiet_env ?s1"
    by (simp add: raises_after_reset_def logout_fails_def fresh_def refused_def inbox_def
          invoice_mail_def quiet_env_def poller_eval sanitize_eval process_message_def
          save_attachment_def save_processed_uid_def)
  note g2 = check_emails_failed_tick [OF l2 safe1]
  have gfc: "failure_count ?t2 = 1"
    using g2(2) reset by simp
  have gcb: "current_backoff ?t2 = 120"
    using g2(3) f1(5,6,7) by (simp add: gfc fresh_fields)
  have late: "run_ticks [(refused, quiet_env), (?late, quiet_env)] fresh = ?t2"
    by (simp only: run_ticks_step [OF f1(1)] run_ticks_step [OF g2(1)] run_ticks.simps(1))
  have both: "all_raise [(refused, quiet_env), (?late, quiet_env)] fresh"
    using r1 l2 by simp
  show ?thesis
    unfolding run2 run3 late
    using r1 n2 r3 fc3 cb3 tm3 both gfc gcb by (simp add: fresh_fields)
qed

text \<open>
  Claim C3, as amended. Let the backoff settings be non-negative, with \<open>max_backoff\<close> times
  1000 inside the range of the C \<open>int\<close> that \<open>timer.start\<close> takes. After N consecutive poll
  ticks (N at least 1, monitoring not paused) that each raise during the mailbox session,
  the current backoff is \<open>min (initial_backoff * backoff_factor ^ failure_count) max_backoff\<close>
  for the failure counter as it then stands, and the timer runs with the current backoff,
  in milliseconds, as its interval. If none of these ticks raised at the logout after
  saving a new attachment, the counter has grown by N; if moreover it was 0 before the
  first of them, it is N and the backoff is
  \<open>min (initial_backoff * backoff_factor ^ N) max_backoff\<close>.
\<close>

theorem consecutive_failures_backoff:
  assumes "ticks \<noteq> []" and "all_raise ticks s"
    and "0 \<le> initial_backoff s" and "0 \<le> backoff_factor s" and "0 \<le> max_backoff s"
    and "max_backoff s * 1000 < 2 ^ 31"
  shows "current_backoff (run_ticks ticks s) =
           min (initial_backoff s * backoff_factor s ^ failure_count (run_ticks ticks s))
               (max_backoff s) \<and>
         timer (run_ticks ticks s) = Some (current_backoff (run_ticks ticks s) * 1000) \<and>
         (none_after_reset ticks s \<longrightarrow>
            failure_count (run_ticks ticks s) = failure_count s + length ticks) \<and>
         (failure_count s = 0 \<and> none_after_reset ticks s \<longrightarrow>
            failure_count (run_ticks ticks s) = length ticks \<and>
            current_backoff (run_ticks ticks s) =
              min (initial_backoff s * backoff_factor s ^ length ticks) (max_backoff s))"
proof -
  from assms(3-6) have "timer_safe s" by (simp add: timer_safe_def)
  from run_ticks_failures [OF assms(2) this] assms(1) show ?thesis by simp
qed

theorem consecutive_failures_backoff_witness:
  "failure_count fresh = 0 \<and>
   all_raise [(refused, quiet_env), (refused, quiet_env), (refused, quiet_env)] fresh \<and>
   none_after_reset [(refused, quiet_env), (refused, quiet_env), (refused, quiet_env)] fresh \<and>
   initial_backoff fresh = 60 \<and> backoff_factor fresh = 2 \<and> max_backoff fresh = 3600 \<and>
   failure_count (run_ticks [(refused, quiet_env), (refused, quiet_env), (refused, quiet_env)] fresh) = 3 \<and>
   current_backoff (run_ticks [(refused, quiet_env), (refused, quiet_env), (refused, quiet_env)] fresh) = 480 \<and>
   timer (run_ticks [(refused, quiet_env), (refused, quiet_env), (refused, quiet_env)] fresh) = Some 480000"
proof -
  let ?ticks = "[(refused, quiet_env), (refused, quiet_env), (refused, quiet_env)]"
  have h1: "failure_count fresh = 0"
    by (simp add: fresh_def new_downloader_def)
  have h2: "?ticks \<noteq> []" by simp
  have "list_all (\<lambda>tick. login_error (fst tick) \<noteq> None) ?ticks"
    by (simp add: refused_def)
  from login_failures_all_raise [OF this fresh_fields(6,7)]
  have h3: "all_raise ?ticks fresh" and h4: "none_after_reset ?ticks fresh"
    by simp_all
  have cfg: "initial_backoff fresh = 60" "backoff_factor fresh = 2" "max_backoff fresh = 3600"
    by (simp_all add: fresh_def new_downloader_def)
  have h5: "0 \<le> initial_backoff fresh" "0 \<le> backoff_factor fresh" "0 \<le> max_backoff fresh"
    "max_backoff fresh * 1000 < 2 ^ 31"
    by (simp_all add: cfg)
  from consecutive_failures_backoff [OF h2 h3 h5] h1 h3 h4 cfg show ?thesis
    by simp
qed

text \<open>
  Claim C1 as stated says that every tick that completes without an exception resets the
  failure counter and the backoff and puts the timer back on the polling interval. With
  the default settings (initial backoff 60, factor 2, polling interval 600), one failed
  tick followed by a tick that completes and finds nothing new leaves the counter at 1,
  the backoff at 120 and the timer at 120000 ms. When the second tick saves an attachment
  instead, the counter and the backoff are reset, and the timer is still at 120000 ms.
\<close>

theorem check_emails_success_without_reset_counterexample:
  "failure_count (run_ticks [(refused, quiet_env), (empty_inbox, quiet_env)] fresh) = 1 \<and>
   current_backoff (run_ticks [(refused, quiet_env), (empty_inbox, quiet_env)] fresh) = 120 \<and>
   timer (run_ticks [(refused, quiet_env), (empty_inbox, quiet_env)] fresh) = Some 120000 \<and>
   tick_new_attachments empty_inbox quiet_env (check_emails refused quiet_env fresh) = Some 0 \<and>
   initial_backoff fresh = 60 \<and> polling_interval fresh = 600 \<and>
   failure_count (run_ticks [(refused, quiet_env), (inbox [invoice_mail ''8''], quiet_env)] fresh) = 0 \<and>
   current_backoff (run_ticks [(refused, quiet_env), (inbox [invoice_mail ''8''], quiet_env)] fresh) = 60 \<and>
   timer (run_ticks [(refused, quiet_env), (inbox [invoice_mail ''8''], quiet_env)] fresh) = Some 120000"
proof -
  let ?s1 = "check_emails refused quiet_env fresh"
  let ?s2 = "check_emails empty_inbox quiet_env ?s1"
  let ?t2 = "check_emails (inbox [invoice_mail ''8'']) quiet_env ?s1"
  have r1: "tick_raises refused quiet_env fresh"
    by (simp add: tick_raises_login refused_login fresh_fields)
  note f1 = check_emails_failed_tick [OF r1 fresh_fields(7)]
  have fc1: "failure_count ?s1 = 1"
    using f1(2) by (simp add: raises_after_reset_login refused_login fresh_fields)
  have cb1: "current_backoff ?s1 = 120"
    using f1(3) by (simp add: fc1 fresh_fields)
  have tm1: "timer ?s1 = Some 120000"
    using f1(4) by (simp add: cb1)
  have np1: "\<not> monitoring_paused ?s1"
    using f1(8) by (simp add: fresh_fields)
  have n2: "tick_new_attachments empty_inbox quiet_env ?s1 = Some 0"
    using np1
    by (simp add: tick_new_attachments_def body_new_attachments_def empty_inbox_def inbox_def)
  note c2 = check_emails_completed_tick [OF n2]
  have run2: "run_ticks [(refused, quiet_env), (empty_inbox, quiet_env)] fresh = ?s2"
    by (simp only: run_ticks_step [OF f1(1)] run_ticks_step [OF c2(1)] run_ticks.simps(1))
  have quiet: "failure_count ?s2 = 1" "current_backoff ?s2 = 120" "timer ?s2 = Some 120000"
    using c2(2,3,4) fc1 cb1 tm1 by (simp_all add: same_settings_def)
  have m2: "tick_new_attachments (inbox [invoice_mail ''8'']) quiet_env ?s1 = Some 1"
    by (simp add: tick_new_attachments_def fresh_def refused_def inbox_def invoice_mail_def
          quiet_env_def poller_eval sanitize_eval process_message_def save_attachment_def
          save_processed_uid_def)
  note d2 = check_emails_completed_tick [OF m2]
  have run2': "run_ticks [(refused, quiet_env), (inbox [invoice_mail ''8''], quiet_env)] fresh = ?t2"
    by (simp only: run_ticks_step [OF f1(1)] run_ticks_step [OF d2(1)] run_ticks.simps(1))
  have saved: "failure_count ?t2 = 0" "current_backoff ?t2 = 60" "timer ?t2 = Some 120000"
    using d2(2,3,4) f1(5) tm1 by (simp_all add: same_settings_def fresh_fields)
  show ?thesis
    unfolding run2 run2' using quiet n2 saved by (simp add: fresh_fields)
qed

text \<open>
  Claim C1, as amended. A tick that runs while monitoring is not paused, completes without
  an exception and has saved at least one new attachment resets the failure counter to 0
  and the current backoff to the initial backoff; a tick that completes without a new
  attachment leaves both as they were. (Nothing is said of the timer.)
\<close>

theorem check_emails_resets_after_download:
  assumes "tick_new_attachments mb env s = Some n"
  shows "(0 < n \<longrightarrow>
            failure_count (check_emails mb env s) = 0 \<and>
            current_backoff (check_emails mb env s) = initial_backoff s) \<and>
         (n = 0 \<longrightarrow>
            failure_count (check_emails mb env s) = failure_count s \<and>
            current_backoff (check_emails mb env s) = current_backoff s)"
  using check_emails_completed_tick(2,3) [OF assms] by simp

theorem check_emails_resets_after_download_witness:
  "tick_new_attachments (inbox [invoice_mail ''8'']) quiet_env (check_emails refused quiet_env fresh)
     = Some 1 \<and>
   failure_count (check_emails refused quiet_env fresh) = 1 \<and>
   current_backoff (check_emails refused quiet_env fresh) = 120 \<and>
   failure_count (check_emails (inbox [invoice_mail ''8'']) quiet_env
                    (check_emails refused quiet_env fresh)) = 0 \<and>
   current_backoff (check_emails (inbox [invoice_mail ''8'']) quiet_env
                      (check_emails refused quiet_env fresh)) = 60"
proof -
  let ?s = "check_emails refused quiet_env fresh"
  have h: "tick_new_attachments (inbox [invoice_mail ''8'']) quiet_env ?s = Some 1"
    by (simp add: tick_new_attachments_def fresh_def refused_def inbox_def invoice_mail_def
          quiet_env_def poller_eval sanitize_eval process_message_def save_attachment_def
          save_processed_uid_def)
  have b: "failure_count ?s = 1" "current_backoff ?s = 120" "initial_backoff ?s = 60"
    by (simp_all add: fresh_def refused_def poller_eval)
  from check_emails_resets_after_download [OF h] h b show ?thesis
    by simp
qed

text \<open>
  Claim C4. A message whose identifier is in the processed set is skipped: the body of the
  loop leaves the object (disk, ledger file, set, log) and the attachment counter as they
  were, so a tick ends in the same state as if the mailbox had not returned that message.
  The lines a tick appends to the ledger file are identifiers that were not in the set
  before it, and no operation (\<open>check_emails\<close>, \<open>save_processed_uid\<close>, \<open>pause_monitoring\<close>,
  \<open>resume_monitoring\<close>) removes an identifier from the set.
\<close>

theorem processed_uid_never_reprocessed:
  "(\<forall>msg n. uid msg \<in> processed_uids s \<longrightarrow> process_message env msg (s, n) = Inr (s, n)) \<and>
   check_emails mb env s =
     check_emails (mb\<lparr>fetched := filter (\<lambda>m. uid m \<notin> processed_uids s) (fetched mb)\<rparr>) env s \<and>
   processed_uids s \<subseteq> processed_uids (check_emails mb env s) \<and>
   (\<exists>new. processed_uids_file (check_emails mb env s) = processed_uids_file s @ new \<and>
          set new \<inter> processed_uids s = {}) \<and>
   (\<forall>u s'. save_processed_uid env u s = Inr s' \<longrightarrow> processed_uids s \<subseteq> processed_uids s') \<and>
   processed_uids (pause_monitoring s) = processed_uids s \<and>
   processed_uids (resume_monitoring s) = processed_uids s"
proof -
  have skip: "\<forall>msg n. uid msg \<in> processed_uids s \<longrightarrow> process_message env msg (s, n) = Inr (s, n)"
    by (simp add: process_message_skip)
  have same: "check_emails mb env s =
     check_emails (mb\<lparr>fetched := filter (\<lambda>m. uid m \<notin> processed_uids s) (fetched mb)\<rparr>) env s"
  proof -
    let ?s0 = "logging INFO ''Checking for new emails...'' s"
    let ?s1 = "logging INFO (''Connected to folder: '' @ FOLDER ?s0) ?s0"
    have "processed_uids s \<subseteq> processed_uids ?s1" by (simp add: logging_def)
    then have "process_messages env (filter (\<lambda>m. uid m \<notin> processed_uids s) (fetched mb)) (?s1, 0)
                 = process_messages env (fetched mb) (?s1, 0)"
      by (rule process_messages_skip)
    then have "mailbox_session (mb\<lparr>fetched := filter (\<lambda>m. uid m \<notin> processed_uids s) (fetched mb)\<rparr>) env ?s0
                 = mailbox_session mb env ?s0"
      by (simp add: mailbox_session_def session_body_def Let_def
            split: option.splits sum.splits prod.splits)
    then show ?thesis
      by (simp add: check_emails_def check_emails_call_def)
  qed
  have grows: "ledger_grows s (check_emails mb env s)"
    by (rule check_emails_ledger_grows)
  have save: "\<forall>u s'. save_processed_uid env u s = Inr s' \<longrightarrow> processed_uids s \<subseteq> processed_uids s'"
    using save_processed_uid_keeps(2) by blast
  have pause: "processed_uids (pause_monitoring s) = processed_uids s"
    by (simp add: pause_monitoring_def logging_def showMessage_def)
  have resume: "processed_uids (resume_monitoring s) = processed_uids s"
    by (simp add: resume_monitoring_def timer_start_def logging_def showMessage_def)
  from skip same grows save pause resume show ?thesis
    unfolding ledger_grows_def by blast
qed

theorem processed_uid_never_reprocessed_witness:
  "''7'' \<in> processed_uids fresh \<and>
   process_message quiet_env (invoice_mail ''7'') (fresh, 0) = Inr (fresh, 0) \<and>
   check_emails (inbox [invoice_mail ''7'', invoice_mail ''8'']) quiet_env fresh =
     check_emails (inbox [invoice_mail ''8'']) quiet_env fresh \<and>
   processed_uids_file (check_emails (inbox [invoice_mail ''7'', invoice_mail ''8'']) quiet_env fresh)
     = [''7'', ''8''] \<and>
   processed_uids (check_emails (inbox [invoice_mail ''7'', invoice_mail ''8'']) quiet_env fresh)
     = {''7'', ''8''}"
proof -
  have h: "''7'' \<in> processed_uids fresh"
    by (simp add: fresh_def new_downloader_def)
  have f: "(inbox [invoice_mail ''7'', invoice_mail ''8''])
             \<lparr>fetched := filter (\<lambda>m. uid m \<notin> processed_uids fresh)
                          (fetched (inbox [invoice_mail ''7'', invoice_mail ''8'']))\<rparr>
           = inbox [invoice_mail ''8'']"
    by (simp add: inbox_def invoice_mail_def fresh_def new_downloader_def)
  have v: "processed_uids_file (check_emails (inbox [invoice_mail ''8'']) quiet_env fresh) = [''7'', ''8'']"
       "processed_uids (check_emails (inbox [invoice_mail ''8'']) quiet_env fresh) = {''7'', ''8''}"
    by (auto simp: fresh_def inbox_def invoice_mail_def quiet_env_def
          poller_eval sanitize_eval process_message_def save_attachment_def save_processed_uid_def)
  note all = processed_uid_never_reprocessed
               [of fresh quiet_env "inbox [invoice_mail ''7'', invoice_mail ''8'']"]
  have u: "uid (invoice_mail ''7'') \<in> processed_uids fresh"
    using h by (simp add: invoice_mail_def)
  from all u have "process_message quiet_env (invoice_mail ''7'') (fresh, 0) = Inr (fresh, 0)"
    by blast
  with all h f v show ?thesis by simp
qed

lemma div12_shift: "(k + 12) div 12 = k div 12 + (1::int)"
  by simp

lemma mod12_shift: "(k + 12) mod 12 = k mod (12::int)"
  by simp

lemma wrap_above_closed:
  "wrap_above (y, m) = (if m > 12 then (y + (m - 1) div 12, (m - 1) mod 12 + 1) else (y, m))"
proof (induction "(y, m)" arbitrary: y m rule: wrap_above.induct)
  case (1 yr mon)
  show ?case
  proof (cases "mon > 12")
    case False
    then show ?thesis by (simp add: wrap_above.simps [of yr mon])
  next
    case True
    define k where "k = mon - 13"
    have mon: "mon = k + 13" by (simp add: k_def)
    have k0: "0 \<le> k" using True by (simp add: k_def)
    have arg: "mon - 12 = k + 1" by (simp add: k_def)
    have "wrap_above (yr, mon) = wrap_above (yr + 1, mon - 12)"
      using True by (simp add: wrap_above.simps [of yr mon])
    then have step: "wrap_above (yr, mon) = wrap_above (yr + 1, k + 1)"
      by (simp only: arg)
    have ih: "wrap_above (yr + 1, k + 1) =
                (if k + 1 > 12 then (yr + 1 + k div 12, k mod 12 + 1) else (yr + 1, k + 1))"
      using "1" [OF True] unfolding arg by simp
    have d: "(mon - 1) div 12 = k div 12 + 1"
      using div12_shift [of k] by (simp add: mon)
    have r: "(mon - 1) mod 12 = k mod 12"
      using mod12_shift [of k] by (simp add: mon)
    have small: "k div 12 = 0 \<and> k mod 12 = k" if "\<not> k + 1 > 12"
      using that k0 by simp
    have "wrap_above (yr, mon) = (yr + (k div 12 + 1), k mod 12 + 1)"
    proof (cases "k + 1 > 12")
      case True
      with step ih show ?thesis by simp
    next
      case False
      with step ih small show ?thesis by simp
    qed
    with d r True show ?thesis by simp
  qed
qed

lemma wrap_below_closed:
  "wrap_below (y, m) = (if m < 1 then (y + (m - 1) div 12, (m - 1) mod 12 + 1) else (y, m))"
proof (induction "(y, m)" arbitrary: y m rule: wrap_below.induct)
  case (1 yr mon)
  show ?case
  proof (cases "mon < 1")
    case False
    then show ?thesis by (simp add: wrap_below.simps [of yr mon])
  next
    case True
    define k where "k = mon - 1"
    have mon: "mon = k + 1" by (simp add: k_def)
    have k0: "k < 0" using True by (simp add: k_def)
    have arg: "mon + 12 = k + 13" by (simp add: k_def)
    have "wrap_below (yr, mon) = wrap_below (yr - 1, mon + 12)"
      using True by (simp add: wrap_below.simps [of yr mon])
    then have step: "wrap_below (yr, mon) = wrap_below (yr - 1, k + 13)"
      by (simp only: arg)
    have e: "k + 13 - 1 = k + 12" by simp
    have ih: "wrap_below (yr - 1, k + 13) =
                (if k + 13 < 1 then (yr - 1 + (k + 12) div 12, (k + 12) mod 12 + 1)
                 else (yr - 1, k + 13))"
      using "1" [OF True] unfolding arg e .
    have small: "k div 12 = - 1 \<and> k mod 12 = k + 12" if "\<not> k + 13 < 1"
    proof -
      from that k0 have b: "0 \<le> k + 12" "k + 12 < 12" by simp_all
      have "(k + 12) div 12 = 0" using b by (rule div_pos_pos_trivial)
      moreover have "(k + 12) mod 12 = k + 12" using b by (rule mod_pos_pos_trivial)
      ultimately show ?thesis
        using div12_shift [of k] mod12_shift [of k] by linarith
    qed
    have "wrap_below (yr, mon) = (yr + k div 12, k mod 12 + 1)"
    proof (cases "k + 13 < 1")
      case True
      with step ih div12_shift [of k] mod12_shift [of k] show ?thesis by simp
    next
      case False
      with step ih small show ?thesis by simp
    qed
    then show ?thesis using True by (simp add: mon)
  qed
qed

lemma wrap_months:
  "wrap_below (wrap_above (y, m)) = (y + (m - 1) div 12, (m - 1) mod 12 + 1)"
proof -
  consider "m > 12" | "m < 1" | "1 \<le> m \<and> m \<le> 12" by linarith
  then show ?thesis
  proof cases
    case 1
    have "0 \<le> (m - 1) mod 12" by (rule pos_mod_sign) simp
    then have "\<not> (m - 1) mod 12 + 1 < 1" by linarith
    with 1 show ?thesis by (simp only: wrap_above_closed wrap_below_closed if_True if_False)
  next
    case 2
    then have "\<not> m > 12" by simp
    with 2 show ?thesis by (simp only: wrap_above_closed wrap_below_closed if_True if_False)
  next
    case 3
    then have b: "0 \<le> m - 1" "m - 1 < 12" by simp_all
    have "(m - 1) div 12 = 0" using b by (rule div_pos_pos_trivial)
    moreover have "(m - 1) mod 12 = m - 1" using b by (rule mod_pos_pos_trivial)
    moreover have "\<not> m > 12" "\<not> m < 1" using 3 by simp_all
    ultimately show ?thesis
      by (simp only: wrap_above_closed wrap_below_closed if_False) simp
  qed
qed

lemma get_target_date_closed:
  "get_target_date today mo dof =
     (case date_new (target_year today mo) (target_month today mo) (day today + dof) of
        Inr d \<Rightarrow> Inr d
      | Inl ValueError \<Rightarrow> date_new (target_year today mo) (target_month today mo) 1
      | Inl e \<Rightarrow> Inl e)"
  unfolding get_target_date_def wrap_months target_year_def target_month_def Let_def
  by simp

lemma target_month_range: "1 \<le> target_month today mo \<and> target_month today mo \<le> 12"
  unfolding target_month_def
  using pos_mod_bound [of 12 "month today + mo - 1"] pos_mod_sign [of 12 "month today + mo - 1"]
  by simp

lemma days_in_month_pos: "1 \<le> days_in_month y m"
  by (simp add: days_in_month_def)

text \<open>
  Claim C2 as stated says that \<open>get_target_date\<close> never raises. On 2024-03-31 a month
  offset of 96000 leads to the year 10024: \<open>date(year, month, day_)\<close> raises \<open>ValueError\<close>,
  and so does the fallback \<open>date(year, month, 1)\<close> in the handler.
\<close>

theorem get_target_date_raises_counterexample:
  "get_target_date \<lparr>year = 2024, month = 3, day = 31\<rparr> 96000 0 = Inl ValueError"
  by (simp add: get_target_date_closed target_year_def target_month_def date_new_def c_int_def
        days_in_month_def is_leap_def)

text \<open>
  Claim C2, as amended. Whenever the year reached by the month offset lies in 1..9999 and
  \<open>today.day + day_offset\<close> fits a C \<open>int\<close>, \<open>get_target_date\<close> returns without raising:
  the date with that year, the month \<open>(today.month + month_offset - 1) mod 12 + 1\<close> and the
  day \<open>today.day + day_offset\<close> when that day exists in that month, and the 1st of that
  month otherwise. (On 2024-03-31 with offsets -1 and 0 this is 2024-02-01.)
\<close>

theorem get_target_date_in_range:
  assumes "1 \<le> target_year today moff" and "target_year today moff \<le> 9999"
    and "c_int (day today + doff)"
  shows "get_target_date today moff doff =
           Inr \<lparr>year = target_year today moff,
                month = target_month today moff,
                day = (if 1 \<le> day today + doff \<and>
                          day today + doff
                            \<le> days_in_month (target_year today moff)
                                 (target_month today moff)
                       then day today + doff else 1)\<rparr>"
proof -
  let ?y = "target_year today moff" and ?m = "target_month today moff"
  note m = target_month_range [of today moff]
  have cy: "c_int ?y" using assms(1,2) by (simp add: c_int_def)
  have cm: "c_int ?m" using m by (simp add: c_int_def)
  have c1: "c_int 1" by (simp add: c_int_def)
  show ?thesis
    using assms cy cm c1 m days_in_month_pos [of ?y ?m]
    by (simp add: get_target_date_closed date_new_def)
qed

theorem get_target_date_in_range_witness:
  "target_year \<lparr>year = 2024, month = 3, day = 31\<rparr> (- 1) = 2024 \<and>
   c_int (day \<lparr>year = 2024, month = 3, day = 31\<rparr> + 0) \<and>
   get_target_date \<lparr>year = 2024, month = 3, day = 31\<rparr> (- 1) 0 = Inr \<lparr>year = 2024, month = 2, day = 1\<rparr>"
proof -
  let ?t = "\<lparr>year = 2024, month = 3, day = 31\<rparr>"
  have y: "target_year ?t (- 1) = 2024" by (simp add: target_year_def)
  have m: "target_month ?t (- 1) = 2" by (simp add: target_month_def)
  have c: "c_int (day ?t + 0)" by (simp add: c_int_def)
  have h1: "1 \<le> target_year ?t (- 1)" and h2: "target_year ?t (- 1) \<le> 9999"
    using y by simp_all
  from get_target_date_in_range [OF h1 h2 c] y m c show ?thesis
    by (simp add: days_in_month_def is_leap_def)
qed

lemma build_table_append:
  "build_table (xs @ ys) t =
     (case build_table xs t of Inl e \<Rightarrow> Inl e | Inr t' \<Rightarrow> build_table ys t')"
  by (induction xs arbitrary: t) (auto split: sum.splits)

lemma build_table_other_senders:
  "build_table xs t = Inr t' \<Longrightarrow> \<forall>it \<in> set xs. \<forall>r. rule_of_item it \<noteq> Inr (s, r) \<Longrightarrow> t' s = t s"
proof (induction xs arbitrary: t)
  case Nil
  then show ?case by simp
next
  case (Cons it xs)
  from Cons.prems(1) obtain s0 r0 where
    it: "rule_of_item it = Inr (s0, r0)" and rest: "build_table xs (t(s0 \<mapsto> r0)) = Inr t'"
    by (auto split: sum.splits)
  from Cons.prems(2) it have "s0 \<noteq> s" by auto
  moreover from Cons.prems(2) have "\<forall>it \<in> set xs. \<forall>r. rule_of_item it \<noteq> Inr (s, r)" by simp
  ultimately show ?case using Cons.IH [OF rest] by simp
qed

lemma build_table_overwritten:
  "rule_of_item item = Inr (s, r) \<Longrightarrow>
   build_table (xs @ [item]) (t(s \<mapsto> r0)) = build_table (xs @ [item]) t"
proof (induction xs arbitrary: t)
  case Nil
  have "(t(s \<mapsto> r0))(s \<mapsto> r) = t(s \<mapsto> r)" by (rule fun_upd_upd)
  with Nil show ?case by (simp del: fun_upd_apply)
next
  case (Cons it xs)
  show ?case
  proof (cases "rule_of_item it")
    case (Inl e)
    then show ?thesis by simp
  next
    case (Inr p)
    obtain s1 r1 where p: "p = (s1, r1)" by (cases p)
    have l: "build_table ((it # xs) @ [item]) (t(s \<mapsto> r0))
               = build_table (xs @ [item]) ((t(s \<mapsto> r0))(s1 \<mapsto> r1))"
      using Inr p by (simp del: fun_upd_apply)
    have r: "build_table ((it # xs) @ [item]) t = build_table (xs @ [item]) (t(s1 \<mapsto> r1))"
      using Inr p by (simp del: fun_upd_apply)
    show ?thesis
    proof (cases "s1 = s")
      case True
      have "(t(s \<mapsto> r0))(s \<mapsto> r1) = t(s \<mapsto> r1)" by (rule fun_upd_upd)
      with l r True show ?thesis by (simp del: fun_upd_apply)
    next
      case False
      then have "(t(s \<mapsto> r0))(s1 \<mapsto> r1) = (t(s1 \<mapsto> r1))(s \<mapsto> r0)"
        by (simp add: fun_upd_twist)
      with l r Cons.IH [OF Cons.prems, of "t(s1 \<mapsto> r1)"] show ?thesis
        by (simp del: fun_upd_apply)
    qed
  qed
qed

text \<open>
  Claim C9. When several entries of the rule file have the same lowercased
  \<open>sender_email\<close>, the table \<open>load_companies_from_json\<close> returns maps that sender to the
  rules of the last of them in file order, and an earlier one has no effect: the result
  is the same as for the file without it.
\<close>

theorem load_companies_last_duplicate_wins:
  assumes "rule_of_item item = Inr (s, r)"
    and "\<forall>it \<in> set post. \<forall>r'. rule_of_item it \<noteq> Inr (s, r')"
  shows "(\<forall>table. snd (load_companies_from_json (Parsed (JArray (pre @ [item] @ post)))) = Inr table
            \<longrightarrow> table s = Some r) \<and>
         (\<forall>a b dup r0. pre = a @ [dup] @ b \<and> rule_of_item dup = Inr (s, r0) \<longrightarrow>
            load_companies_from_json (Parsed (JArray (a @ [dup] @ b @ [item] @ post))) =
            load_companies_from_json (Parsed (JArray (a @ b @ [item] @ post))))"
proof (intro conjI allI impI)
  fix table
  assume "snd (load_companies_from_json (Parsed (JArray (pre @ [item] @ post)))) = Inr table"
  then have all: "build_table (pre @ [item] @ post) Map.empty = Inr table"
    by (simp add: load_companies_from_json_def iterate_def)
  then obtain t1 where t1: "build_table pre Map.empty = Inr t1"
    and rest: "build_table ([item] @ post) t1 = Inr table"
    by (auto simp: build_table_append split: sum.splits)
  from rest assms(1) have "build_table post (t1(s \<mapsto> r)) = Inr table" by simp
  from build_table_other_senders [OF this assms(2)] show "table s = Some r" by simp
next
  fix a b dup r0
  assume "pre = a @ [dup] @ b \<and> rule_of_item dup = Inr (s, r0)"
  then have dup: "rule_of_item dup = Inr (s, r0)" by simp
  have "build_table (a @ [dup] @ b @ [item] @ post) t = build_table (a @ b @ [item] @ post) t" for t
  proof (cases "build_table a t")
    case (Inl e)
    then show ?thesis by (simp add: build_table_append)
  next
    case (Inr t1)
    have "build_table ((b @ [item]) @ post) (t1(s \<mapsto> r0)) = build_table ((b @ [item]) @ post) t1"
      unfolding build_table_append [of "b @ [item]" post]
      by (simp only: build_table_overwritten [OF assms(1)])
    with Inr dup show ?thesis by (simp add: build_table_append)
  qed
  then show "load_companies_from_json (Parsed (JArray (a @ [dup] @ b @ [item] @ post))) =
             load_companies_from_json (Parsed (JArray (a @ b @ [item] @ post)))"
    by (simp add: load_companies_from_json_def iterate_def)
qed

lemma rule_of_entry:
  "prefix \<noteq> [] \<Longrightarrow> rule_of_item (entry sender prefix) = Inr (lower sender, numbered_rule prefix)"
  by (simp add: rule_of_item_def entry_def numbered_rule_def truthy_def)

theorem load_companies_last_duplicate_wins_witness:
  "(\<exists>table. snd (load_companies_from_json
        (Parsed (JArray [entry ''Al@x.com'' ''Old'', entry ''bo@y.org'' ''Bo'', entry ''al@X.com'' ''Alice'']))) = Inr table \<and>
      table ''al@x.com'' = Some (numbered_rule ''Alice'')) \<and>
   load_companies_from_json
     (Parsed (JArray [entry ''Al@x.com'' ''Old'', entry ''bo@y.org'' ''Bo'', entry ''al@X.com'' ''Alice''])) =
   load_companies_from_json
     (Parsed (JArray [entry ''bo@y.org'' ''Bo'', entry ''al@X.com'' ''Alice'']))"
proof -
  have lo: "lower ''al@X.com'' = ''al@x.com''" "lower ''Al@x.com'' = ''al@x.com''"
    "lower ''bo@y.org'' = ''bo@y.org''"
    by (simp_all add: lower_def)
  have h1: "rule_of_item (entry ''al@X.com'' ''Alice'') = Inr (''al@x.com'', numbered_rule ''Alice'')"
    by (simp add: rule_of_entry lo)
  have h2: "\<forall>it \<in> set []. \<forall>r'. rule_of_item it \<noteq> Inr (''al@x.com'', r')" by simp
  have d: "rule_of_item (entry ''Al@x.com'' ''Old'') = Inr (''al@x.com'', numbered_rule ''Old'')"
    by (simp add: rule_of_entry lo)
  note t = load_companies_last_duplicate_wins
             [OF h1 h2, of "[entry ''Al@x.com'' ''Old'', entry ''bo@y.org'' ''Bo'']"]
  have ok: "\<exists>table. snd (load_companies_from_json
        (Parsed (JArray [entry ''Al@x.com'' ''Old'', entry ''bo@y.org'' ''Bo'', entry ''al@X.com'' ''Alice'']))) = Inr table"
    by (simp add: load_companies_from_json_def iterate_def rule_of_entry)
  from t have first: "\<forall>table. snd (load_companies_from_json
        (Parsed (JArray [entry ''Al@x.com'' ''Old'', entry ''bo@y.org'' ''Bo'', entry ''al@X.com'' ''Alice'']))) = Inr table
        \<longrightarrow> table ''al@x.com'' = Some (numbered_rule ''Alice'')"
    by simp
  from t have "[entry ''Al@x.com'' ''Old'', entry ''bo@y.org'' ''Bo''] = [] @ [entry ''Al@x.com'' ''Old''] @ [entry ''bo@y.org'' ''Bo''] \<and>
       rule_of_item (entry ''Al@x.com'' ''Old'') = Inr (''al@x.com'', numbered_rule ''Old'') \<longrightarrow>
       load_companies_from_json (Parsed (JArray ([] @ [entry ''Al@x.com'' ''Old''] @ [entry ''bo@y.org'' ''Bo''] @ [entry ''al@X.com'' ''Alice''] @ []))) =
       load_companies_from_json (Parsed (JArray ([] @ [entry ''bo@y.org'' ''Bo''] @ [entry ''al@X.com'' ''Alice''] @ [])))"
    by blast
  with d have second: "load_companies_from_json
     (Parsed (JArray [entry ''Al@x.com'' ''Old'', entry ''bo@y.org'' ''Bo'', entry ''al@X.com'' ''Alice''])) =
   load_companies_from_json
     (Parsed (JArray [entry ''bo@y.org'' ''Bo'', entry ''al@X.com'' ''Alice'']))"
    by simp
  from ok first second show ?thesis by blast
qed

lemma makedirs_files: "makedirs fs p = Inr fs1 \<Longrightarrow> files fs1 = files fs"
  by (auto simp: makedirs_def split: if_splits)

lemma destination_files:
  "destination today r filename fs = Inr (fs1, target_folder, new_filename) \<Longrightarrow> files fs1 = files fs"
  "destination today r filename fs = Inl (e, fs1) \<Longrightarrow> files fs1 = files fs"
  by (auto simp: destination_def Let_def split: sum.splits if_splits dest: makedirs_files)

lemma os_path_join_inject: "os_path_join a b = os_path_join a c \<longleftrightarrow> b = c"
  by (simp add: os_path_join_def)

lemma map_of_filter_keys:
  "map_of (filter (\<lambda>(q, c). P q) xs) p = (if P p then map_of xs p else None)"
  by (induction xs) auto

lemma shutil_move_other:
  assumes "shutil_move fs src dst = Inr fs2" and "p \<noteq> src" and "p \<noteq> dst"
  shows "map_of (files fs2) p = map_of (files fs) p"
proof -
  from assms(1) obtain content where
    "files fs2 = filter (\<lambda>(q, c). q \<noteq> src \<and> q \<noteq> dst) (files fs) @ [(dst, content)]"
    by (auto simp: shutil_move_def split: option.splits if_splits)
  then show ?thesis
    using assms(2,3)
    by (simp add: map_of_append map_add_def map_of_filter_keys split: option.splits)
qed

lemma process_file_unrecognised:
  assumes "isfile fs (os_path_join base_dir filename)" and "unrecognised companies filename"
  shows "process_file today companies filename (fs, out) = Inr (fs, out @ [report_line filename])"
  using assms
  by (auto simp: process_file_def unrecognised_def report_line_def Let_def split: option.splits)

lemma process_file_keeps_unrecognised:
  assumes "unrecognised companies f" and "isfile fs (os_path_join base_dir f)"
  shows "map_of (files (final_fs (process_file today companies filename (fs, out))))
           (os_path_join base_dir f)
         = map_of (files fs) (os_path_join base_dir f)"
proof -
  let ?p = "os_path_join base_dir f"
  let ?src = "os_path_join base_dir filename"
  show ?thesis
  proof (cases "isfile fs ?src \<and> \<not> unrecognised companies filename")
    case False
    then show ?thesis
      by (auto simp: process_file_def unrecognised_def final_fs_def Let_def split: option.splits)
  next
    case True
    then obtain addr r where m: "email_match filename = Some addr"
      and c: "companies (lower addr) = Some r" and src: "isfile fs ?src"
      by (auto simp: unrecognised_def split: option.splits)
    from True assms(1) have ne: "f \<noteq> filename" by auto
    then have psrc: "?p \<noteq> ?src" by (simp add: os_path_join_inject)
    show ?thesis
    proof (cases "destination today r filename fs")
      case (Inl err)
      obtain e fs1 where err: "err = (e, fs1)" by (cases err)
      from destination_files(2) [OF Inl [unfolded err]] src m c Inl err show ?thesis
        by (simp add: process_file_def final_fs_def Let_def)
    next
      case (Inr d)
      obtain fs1 target_folder new_filename where d: "d = (fs1, target_folder, new_filename)"
        by (cases d)
      note same = destination_files(1) [OF Inr [unfolded d]]
      let ?dst = "os_path_join target_folder new_filename"
      show ?thesis
      proof (cases "path_exists fs1 ?dst")
        case True
        with same src m c Inr d show ?thesis
          by (simp add: process_file_def final_fs_def Let_def)
      next
        case False
        with same assms(2) have pdst: "?p \<noteq> ?dst"
          by (auto simp: path_exists_def isfile_def)
        show ?thesis
        proof (cases "shutil_move fs1 ?src ?dst")
          case (Inl e)
          with False same src m c Inr d show ?thesis
            by (simp add: process_file_def final_fs_def Let_def)
        next
          case moved: (Inr fs2)
          from shutil_move_other [OF moved psrc pdst] same
          have "map_of (files fs2) ?p = map_of (files fs) ?p" by simp
          with moved False src m c Inr d show ?thesis
            by (simp add: process_file_def final_fs_def Let_def)
        qed
      qed
    qed
  qed
qed

lemma process_loop_keeps_unrecognised:
  assumes "unrecognised companies f"
  shows "isfile fs (os_path_join base_dir f) \<Longrightarrow>
         map_of (files (final_fs (process_loop today companies filenames (fs, out))))
           (os_path_join base_dir f)
         = map_of (files fs) (os_path_join base_dir f)"
proof (induction filenames arbitrary: fs out)
  case Nil
  then show ?case by (simp add: final_fs_def)
next
  case (Cons filename filenames)
  note step = process_file_keeps_unrecognised [OF assms Cons.prems, of today filename out]
  show ?case
  proof (cases "process_file today companies filename (fs, out)")
    case (Inl err)
    with step show ?thesis by simp
  next
    case (Inr acc)
    obtain fs1 out1 where acc: "acc = (fs1, out1)" by (cases acc)
    from step Inr acc have eq: "map_of (files fs1) (os_path_join base_dir f)
                                  = map_of (files fs) (os_path_join base_dir f)"
      by (simp add: final_fs_def)
    with Cons.prems have "isfile fs1 (os_path_join base_dir f)" by (simp add: isfile_def)
    from Cons.IH [OF this, of out1] eq Inr acc show ?thesis by simp
  qed
qed

lemma process_file_output_grows:
  "process_file today companies filename (fs, out) = Inr (fs', out') \<Longrightarrow> \<exists>l. out' = out @ l"
  by (auto simp: process_file_def Let_def split: option.splits sum.splits if_splits prod.splits)

lemma process_loop_output_grows:
  "process_loop today companies filenames (fs, out) = Inr (fs', out') \<Longrightarrow> \<exists>l. out' = out @ l"
proof (induction filenames arbitrary: fs out)
  case Nil
  then show ?case by simp
next
  case (Cons filename filenames)
  then obtain fs1 out1 where
    step: "process_file today companies filename (fs, out) = Inr (fs1, out1)"
    and rest: "process_loop today companies filenames (fs1, out1) = Inr (fs', out')"
    by (auto split: sum.splits)
  from process_file_output_grows [OF step] Cons.IH [OF rest] show ?case by auto
qed

lemma process_loop_reports:
  assumes "unrecognised companies f"
  shows "isfile fs (os_path_join base_dir f) \<Longrightarrow> f \<in> set filenames \<Longrightarrow>
         process_loop today companies filenames (fs, out) = Inr (fs', out') \<Longrightarrow>
         report_line f \<in> set out'"
proof (induction filenames arbitrary: fs out)
  case Nil
  then show ?case by simp
next
  case (Cons filename filenames)
  from Cons.prems(3) obtain fs1 out1 where
    step: "process_file today companies filename (fs, out) = Inr (fs1, out1)"
    and rest: "process_loop today companies filenames (fs1, out1) = Inr (fs', out')"
    by (auto split: sum.splits)
  from process_file_keeps_unrecognised [OF assms Cons.prems(1), of today filename out] step
  have "map_of (files fs1) (os_path_join base_dir f) = map_of (files fs) (os_path_join base_dir f)"
    by (simp add: final_fs_def)
  with Cons.prems(1) have file1: "isfile fs1 (os_path_join base_dir f)"
    by (simp add: isfile_def)
  show ?case
  proof (cases "filename = f")
    case True
    with process_file_unrecognised [OF Cons.prems(1) assms, of today out] step
    have "out1 = out @ [report_line f]" by simp
    with process_loop_output_grows [OF rest] show ?thesis by auto
  next
    case False
    with Cons.prems(2) have "f \<in> set filenames" by simp
    from Cons.IH [OF file1 this rest] show ?thesis .
  qed
qed

lemma process_files_keeps_unrecognised:
  assumes "unrecognised companies f" and "isfile fs (os_path_join base_dir f)"
    and "snd (load_companies_from_json config) = Inr companies"
    and "process_files today config fs = (e, fs', out')"
  shows "map_of (files fs') (os_path_join base_dir f) = map_of (files fs) (os_path_join base_dir f)"
proof -
  obtain printed where load: "load_companies_from_json config = (printed, Inr companies)"
    using assms(3) by (cases "load_companies_from_json config") simp
  show ?thesis
  proof (cases "listdir fs base_dir")
    case (Inl err)
    with load assms(4) show ?thesis by (simp add: process_files_def)
  next
    case (Inr filenames)
    note keep = process_loop_keeps_unrecognised [OF assms(1,2), of today filenames printed]
    show ?thesis
    proof (cases "process_loop today companies filenames (fs, printed)")
      case failed: (Inl x)
      obtain e1 fs1 out1 where x: "x = (e1, fs1, out1)" by (cases x)
      with load Inr failed assms(4) keep show ?thesis
        by (simp add: process_files_def final_fs_def)
    next
      case completed: (Inr y)
      obtain fs1 out1 where y: "y = (fs1, out1)" by (cases y)
      with load Inr completed assms(4) keep show ?thesis
        by (simp add: process_files_def final_fs_def)
    qed
  qed
qed

lemma process_files_reports:
  assumes "unrecognised companies f" and "isfile fs (os_path_join base_dir f)"
    and "snd (load_companies_from_json config) = Inr companies"
    and "process_files today config fs = (None, fs', out')"
    and "listdir fs base_dir = Inr filenames" and "f \<in> set filenames"
  shows "report_line f \<in> set out'"
proof -
  obtain printed where load: "load_companies_from_json config = (printed, Inr companies)"
    using assms(3) by (cases "load_companies_from_json config") simp
  from load assms(4,5) have
    "process_loop today companies filenames (fs, printed) = Inr (fs', out')"
    by (auto simp: process_files_def split: sum.splits prod.splits)
  from process_loop_reports [OF assms(1,2,6) this] show ?thesis .
qed

text \<open>
  Claim C7 as stated has every unrecognised landing file reported. The loop of
  \<open>process_files\<close> handles no exception: one raised for a file ends the run, and the names
  after it in the listing are never looked at. With a rule that names the files of
  alice@x.com \<open>sub/Alice\<close>, the listing alice@x.com_Invoice.pdf, notes.txt, 2024 and no
  folder \<open>sub\<close> in the folder of the month, \<open>shutil.move\<close> raises for the first file: the
  run ends with that exception, nothing is printed, and notes.txt, whose name has no
  leading address, is left in place but not reported.
\<close>

theorem unrecognised_file_unreported_counterexample:
  "listdir fs_numbered base_dir = Inr [''alice@x.com_Invoice.pdf'', ''notes.txt'', ''2024''] \<and>
   isfile fs_numbered (os_path_join base_dir ''notes.txt'') \<and>
   email_match ''notes.txt'' = None \<and>
   process_files today0 sub_alice_file fs_numbered = (Some OSError, fs_numbered, [])"
proof -
  have "listdir fs_numbered base_dir = Inr [''alice@x.com_Invoice.pdf'', ''notes.txt'', ''2024'']"
    by code_simp
  moreover have "isfile fs_numbered (os_path_join base_dir ''notes.txt'')"
    by code_simp
  moreover have "email_match ''notes.txt'' = None"
    by code_simp
  moreover have "process_files today0 sub_alice_file fs_numbered = (Some OSError, fs_numbered, [])"
    by code_simp
  ultimately show ?thesis by simp
qed

text \<open>
  Claim C7, as amended. A regular file of the landing directory whose name has no leading
  email-address match, or whose lowercased address has no entry in the rule table, is left
  as it is: its step of the loop changes nothing in the file system and prints one line
  that reports it, the loop goes on with the remaining names, and whatever a run does with
  any list of names, also a run that an exception ends, the file is still at its path with
  its contents afterwards. It is reported in every run of \<open>process_files\<close> that completes
  without an exception and whose listing of the landing directory holds its name.
\<close>

theorem unrecognised_file_left_in_place:
  assumes "isfile fs (os_path_join base_dir filename)"
    and "email_match filename = None \<or>
         (\<exists>addr. email_match filename = Some addr \<and> companies (lower addr) = None)"
  shows "process_file today companies filename (fs, out) = Inr (fs, out @ [report_line filename]) \<and>
         process_loop today companies (filename # filenames) (fs, out) =
           process_loop today companies filenames (fs, out @ [report_line filename]) \<and>
         map_of (files (final_fs (process_loop today companies others (fs, out))))
           (os_path_join base_dir filename)
         = map_of (files fs) (os_path_join base_dir filename) \<and>
         (\<forall>config e fs' out'.
            snd (load_companies_from_json config) = Inr companies \<and>
            process_files today config fs = (e, fs', out') \<longrightarrow>
              map_of (files fs') (os_path_join base_dir filename)
                = map_of (files fs) (os_path_join base_dir filename) \<and>
              (\<forall>listed. e = None \<and> listdir fs base_dir = Inr listed \<and> filename \<in> set listed \<longrightarrow>
                 report_line filename \<in> set out'))"
proof -
  from assms(2) have u: "unrecognised companies filename"
    by (auto simp: unrecognised_def)
  note one = process_file_unrecognised [OF assms(1) u, of today out]
  moreover from one have "process_loop today companies (filename # filenames) (fs, out) =
           process_loop today companies filenames (fs, out @ [report_line filename])"
    by simp
  moreover note process_loop_keeps_unrecognised [OF u assms(1), of today others out]
  moreover have "\<forall>config e fs' out'.
            snd (load_companies_from_json config) = Inr companies \<and>
            process_files today config fs = (e, fs', out') \<longrightarrow>
              map_of (files fs') (os_path_join base_dir filename)
                = map_of (files fs) (os_path_join base_dir filename) \<and>
              (\<forall>listed. e = None \<and> listdir fs base_dir = Inr listed \<and> filename \<in> set listed \<longrightarrow>
                 report_line filename \<in> set out')"
    using process_files_keeps_unrecognised [OF u assms(1)] process_files_reports [OF u assms(1)]
    by blast
  ultimately show ?thesis by blast
qed








text \<open>
  Claim C6. When the computed destination path already exists, \<open>process_files\<close> skips the
  source file and reports the conflict: the files, with their contents, are what they were
  (the source is not moved or deleted, the destination is not overwritten), the printed
  line names the destination, no other number is tried, and the loop goes on with the next
  name.
\<close>

theorem existing_destination_is_skipped:
  assumes "isfile fs (os_path_join base_dir filename)"
    and "email_match filename = Some addr" and "companies (lower addr) = Some r"
    and "destination today r filename fs = Inr (fs1, target_folder, new_filename)"
    and "path_exists fs1 (os_path_join target_folder new_filename)"
  shows "process_file today companies filename (fs, out) =
           Inr (fs1, out @ [''File exists (not overwritten): ''
                              @ os_path_join target_folder new_filename]) \<and>
         files fs1 = files fs \<and>
         process_loop today companies (filename # filenames) (fs, out) =
           process_loop today companies filenames
             (fs1, out @ [''File exists (not overwritten): ''
                            @ os_path_join target_folder new_filename])"
proof -
  have one: "process_file today companies filename (fs, out) =
           Inr (fs1, out @ [''File exists (not overwritten): ''
                              @ os_path_join target_folder new_filename])"
    using assms by (simp add: process_file_def Let_def)
  moreover have "files fs1 = files fs"
    using assms(4) by (rule destination_files(1))
  ultimately show ?thesis by simp
qed

lemma takeWhile_run:
  assumes "\<forall>c \<in> set xs. P c" and "\<not> P y"
  shows "takeWhile P (xs @ y # ys) = xs" and "dropWhile P (xs @ y # ys) = y # ys"
  using assms by (simp_all add: takeWhile_append2 dropWhile_append2)

lemma run_split:
  assumes "dropWhile P s = y # ys"
  shows "s = takeWhile P s @ y # ys" and "\<forall>c \<in> set (takeWhile P s). P c" and "\<not> P y"
proof -
  show "s = takeWhile P s @ y # ys"
    using takeWhile_dropWhile_id [of P s] assms by simp
  show "\<forall>c \<in> set (takeWhile P s). P c"
    by (auto dest: set_takeWhileD)
  show "\<not> P y"
    using hd_dropWhile [of P s] assms by simp
qed

lemma isdigit_is_word: "isdigit c \<Longrightarrow> is_word c"
  by (auto simp: isdigit_def is_word_def is_alnum_def)

lemma at_not_local: "\<not> is_local_char CHR ''@''"
  by (simp add: is_local_char_def is_alnum_def)

lemma dot_not_domain: "\<not> is_domain_char CHR ''.''"
  by (simp add: is_domain_char_def is_alnum_def)

lemma underscore_not_tld: "\<not> is_tld_char CHR ''_''"
  by (simp add: is_tld_char_def is_alnum_def)

lemma boundary_case:
  "(case rest of [] \<Rightarrow> Some v | c # cs \<Rightarrow> if W c then None else Some v) = Some d \<Longrightarrow>
   (case rest of [] \<Rightarrow> True | c # cs \<Rightarrow> \<not> W c) \<and> d = v"
  by (cases rest) (simp_all split: if_splits)

lemma number_match_iff:
  "number_match company_name f = Some d \<longleftrightarrow>
     (\<exists>ds rest. f = company_name @ ''-'' @ ds @ rest \<and> ds \<noteq> [] \<and> (\<forall>c \<in> set ds. isdigit c) \<and>
        (case rest of [] \<Rightarrow> True | c # cs \<Rightarrow> \<not> is_word c) \<and> d = int_of_digits ds)"
proof
  let ?pre = "company_name @ ''-''"
  let ?r = "drop (length ?pre) f"
  assume m: "number_match company_name f = Some d"
  then have pre: "take (length ?pre) f = ?pre"
    by (auto simp: number_match_def Let_def split: if_splits)
  then have f: "f = ?pre @ ?r" by (metis append_take_drop_id)
  let ?ds = "takeWhile isdigit ?r" and ?rest = "dropWhile isdigit ?r"
  have nm: "number_match company_name f =
              (if ?ds = [] then None
               else (case ?rest of
                       [] \<Rightarrow> Some (int_of_digits ?ds)
                     | c # cs \<Rightarrow> if is_word c then None else Some (int_of_digits ?ds)))"
    unfolding number_match_def Let_def using pre by (simp only: if_False simp_thms)
  have ds: "?ds \<noteq> []"
  proof
    assume "?ds = []"
    with nm have "number_match company_name f = None" by simp
    with m show False by simp
  qed
  with nm m have inner: "(case ?rest of
                       [] \<Rightarrow> Some (int_of_digits ?ds)
                     | c # cs \<Rightarrow> if is_word c then None else Some (int_of_digits ?ds)) = Some d"
    by simp
  note both = boundary_case [OF inner]
  from both have rest: "(case ?rest of [] \<Rightarrow> True | c # cs \<Rightarrow> \<not> is_word c)" ..
  from both have d: "d = int_of_digits ?ds" ..
  have "f = company_name @ ''-'' @ ?ds @ ?rest"
    using f by simp
  moreover have "\<forall>c \<in> set ?ds. isdigit c" by (auto dest: set_takeWhileD)
  ultimately show "\<exists>ds rest. f = company_name @ ''-'' @ ds @ rest \<and> ds \<noteq> [] \<and>
        (\<forall>c \<in> set ds. isdigit c) \<and>
        (case rest of [] \<Rightarrow> True | c # cs \<Rightarrow> \<not> is_word c) \<and> d = int_of_digits ds"
    using ds rest d by blast
next
  let ?pre = "company_name @ ''-''"
  assume "\<exists>ds rest. f = company_name @ ''-'' @ ds @ rest \<and> ds \<noteq> [] \<and>
        (\<forall>c \<in> set ds. isdigit c) \<and>
        (case rest of [] \<Rightarrow> True | c # cs \<Rightarrow> \<not> is_word c) \<and> d = int_of_digits ds"
  then obtain ds rest where f: "f = ?pre @ ds @ rest" and ds: "ds \<noteq> []"
    and dig: "\<forall>c \<in> set ds. isdigit c"
    and rest: "(case rest of [] \<Rightarrow> True | c # cs \<Rightarrow> \<not> is_word c)"
    and d: "d = int_of_digits ds"
    by auto
  have pre: "take (length ?pre) f = ?pre" and r: "drop (length ?pre) f = ds @ rest"
    using f by simp_all
  have tw: "takeWhile isdigit (ds @ rest) = ds \<and> dropWhile isdigit (ds @ rest) = rest"
  proof (cases rest)
    case Nil
    with dig show ?thesis by simp
  next
    case (Cons c cs)
    with rest have "\<not> isdigit c" using isdigit_is_word by auto
    with dig Cons show ?thesis by (simp add: takeWhile_run)
  qed
  from tw have tw1: "takeWhile isdigit (ds @ rest) = ds"
    and tw2: "dropWhile isdigit (ds @ rest) = rest" by simp_all
  have "number_match company_name f =
          (case rest of
             [] \<Rightarrow> Some (int_of_digits ds)
           | c # cs \<Rightarrow> if is_word c then None else Some (int_of_digits ds))"
    unfolding number_match_def Let_def pre r tw1 tw2 using ds by simp
  with rest d show "number_match company_name f = Some d"
    by (cases rest) simp_all
qed

lemma email_match_iff:
  "email_match filename = Some g \<longleftrightarrow>
     (\<exists>l d t rest.
        filename = l @ ''@'' @ d @ ''.'' @ t @ ''_'' @ rest \<and>
        l \<noteq> [] \<and> (\<forall>c \<in> set l. is_local_char c) \<and>
        d \<noteq> [] \<and> (\<forall>c \<in> set d. is_domain_char c) \<and>
        t \<noteq> [] \<and> (\<forall>c \<in> set t. is_tld_char c) \<and>
        g = l @ ''@'' @ d @ ''.'' @ t)"
proof
  assume m: "email_match filename = Some g"
  let ?l = "takeWhile is_local_char filename"
  from m obtain r1 where r1: "dropWhile is_local_char filename = CHR ''@'' # r1" and l: "?l \<noteq> []"
    by (auto simp: email_match_def Let_def split: list.splits if_splits)
  let ?d = "takeWhile is_domain_char r1"
  from m r1 l obtain r2 where r2: "dropWhile is_domain_char r1 = CHR ''.'' # r2" and d: "?d \<noteq> []"
    by (auto simp: email_match_def Let_def split: list.splits if_splits)
  let ?t = "takeWhile is_tld_char r2"
  from m r1 l r2 d obtain r3 where r3: "dropWhile is_tld_char r2 = CHR ''_'' # r3" and t: "?t \<noteq> []"
    and g: "g = ?l @ ''@'' @ ?d @ ''.'' @ ?t"
    by (auto simp: email_match_def Let_def split: list.splits if_splits)
  have "filename = ?l @ CHR ''@'' # r1" using run_split(1) [OF r1] .
  moreover have "r1 = ?d @ CHR ''.'' # r2" using run_split(1) [OF r2] .
  moreover have "r2 = ?t @ CHR ''_'' # r3" using run_split(1) [OF r3] .
  ultimately have "filename = ?l @ ''@'' @ ?d @ ''.'' @ ?t @ ''_'' @ r3"
    by (metis append_Cons append_Nil)
  moreover have "\<forall>c \<in> set ?l. is_local_char c" "\<forall>c \<in> set ?d. is_domain_char c"
    "\<forall>c \<in> set ?t. is_tld_char c"
    by (auto dest: set_takeWhileD)
  ultimately show "\<exists>l d t rest.
        filename = l @ ''@'' @ d @ ''.'' @ t @ ''_'' @ rest \<and>
        l \<noteq> [] \<and> (\<forall>c \<in> set l. is_local_char c) \<and>
        d \<noteq> [] \<and> (\<forall>c \<in> set d. is_domain_char c) \<and>
        t \<noteq> [] \<and> (\<forall>c \<in> set t. is_tld_char c) \<and>
        g = l @ ''@'' @ d @ ''.'' @ t"
    using l d t g by blast
next
  assume "\<exists>l d t rest.
        filename = l @ ''@'' @ d @ ''.'' @ t @ ''_'' @ rest \<and>
        l \<noteq> [] \<and> (\<forall>c \<in> set l. is_local_char c) \<and>
        d \<noteq> [] \<and> (\<forall>c \<in> set d. is_domain_char c) \<and>
        t \<noteq> [] \<and> (\<forall>c \<in> set t. is_tld_char c) \<and>
        g = l @ ''@'' @ d @ ''.'' @ t"
  then obtain l d t rest where
    f: "filename = l @ CHR ''@'' # (d @ CHR ''.'' # (t @ CHR ''_'' # rest))"
    and l: "l \<noteq> []" "\<forall>c \<in> set l. is_local_char c"
    and d: "d \<noteq> []" "\<forall>c \<in> set d. is_domain_char c"
    and t: "t \<noteq> []" "\<forall>c \<in> set t. is_tld_char c"
    and g: "g = l @ ''@'' @ d @ ''.'' @ t"
    by auto
  note a = takeWhile_run [OF l(2) at_not_local, of "d @ CHR ''.'' # (t @ CHR ''_'' # rest)"]
  note b = takeWhile_run [OF d(2) dot_not_domain, of "t @ CHR ''_'' # rest"]
  note c = takeWhile_run [OF t(2) underscore_not_tld, of rest]
  show "email_match filename = Some g"
    using l(1) d(1) t(1) g by (simp add: email_match_def Let_def f a b c)
qed


theorem existing_destination_is_skipped_witness:
  "isfile fs_conflict (os_path_join base_dir ''alice@x.com_Invoice.pdf'') \<and>
   destination today0 (numbered_rule ''sub/Alice'') ''alice@x.com_Invoice.pdf'' fs_conflict =
     Inr (fs_conflict, march, ''sub/Alice-1.pdf'') \<and>
   path_exists fs_conflict (os_path_join march ''sub/Alice-1.pdf'') \<and>
   process_file today0 alice_sub ''alice@x.com_Invoice.pdf'' (fs_conflict, []) =
     Inr (fs_conflict, [''File exists (not overwritten): '' @ os_path_join march ''sub/Alice-1.pdf''])"
proof -
  have h1: "isfile fs_conflict (os_path_join base_dir ''alice@x.com_Invoice.pdf'')"
    by code_simp
  have h2: "email_match ''alice@x.com_Invoice.pdf'' = Some ''alice@x.com''"
    by code_simp
  have h3: "alice_sub (lower ''alice@x.com'') = Some (numbered_rule ''sub/Alice'')"
    by code_simp
  have h4: "destination today0 (numbered_rule ''sub/Alice'') ''alice@x.com_Invoice.pdf'' fs_conflict =
     Inr (fs_conflict, march, ''sub/Alice-1.pdf'')"
    by code_simp
  have h5: "path_exists fs_conflict (os_path_join march ''sub/Alice-1.pdf'')"
    by code_simp
  from existing_destination_is_skipped
         [where companies = alice_sub and addr = "''alice@x.com''" and out = "[]"
            and filenames = "[]", OF h1 h2 h3 h4 h5]
       h1 h4 h5
  show ?thesis by simp
qed

theorem unrecognised_file_left_in_place_witness:
  "isfile fs_numbered (os_path_join base_dir ''notes.txt'') \<and>
   email_match ''notes.txt'' = None \<and>
   process_file today0 alice_only ''notes.txt'' (fs_numbered, []) =
     Inr (fs_numbered, [''Email address not found in filename: notes.txt'']) \<and>
   map_of (files (final_fs (process_loop today0 alice_only
                              [''alice@x.com_Invoice.pdf'', ''notes.txt''] (fs_numbered, []))))
     (os_path_join base_dir ''notes.txt'') = Some ''hello'' \<and>
   fst (process_files today0 alice_file fs_numbered) = None \<and>
   ''Email address not found in filename: notes.txt''
     \<in> set (snd (snd (process_files today0 alice_file fs_numbered))) \<and>
   map_of (files (fst (snd (process_files today0 alice_file fs_numbered))))
     (os_path_join base_dir ''notes.txt'') = Some ''hello''"
proof -
  have h1: "isfile fs_numbered (os_path_join base_dir ''notes.txt'')"
    by code_simp
  have m: "email_match ''notes.txt'' = None"
    by code_simp
  then have h2: "email_match ''notes.txt'' = None \<or>
         (\<exists>addr. email_match ''notes.txt'' = Some addr \<and> alice_only (lower addr) = None)"
    by (rule disjI1)
  have r: "report_line ''notes.txt'' = ''Email address not found in filename: notes.txt''"
    by code_simp
  have c: "map_of (files fs_numbered) (os_path_join base_dir ''notes.txt'') = Some ''hello''"
    by code_simp
  have lo: "lower ''alice@x.com'' = ''alice@x.com''"
    by code_simp
  have load: "snd (load_companies_from_json alice_file) = Inr alice_only"
    by (simp add: alice_file_def alice_only_def load_companies_from_json_def iterate_def
          rule_of_entry lo)
  have ok: "fst (process_files today0 alice_file fs_numbered) = None"
    by code_simp
  have listed: "listdir fs_numbered base_dir = Inr [''alice@x.com_Invoice.pdf'', ''notes.txt'', ''2024'']"
    by code_simp
  have run: "process_files today0 alice_file fs_numbered =
               (None, fst (snd (process_files today0 alice_file fs_numbered)),
                snd (snd (process_files today0 alice_file fs_numbered)))"
    using ok by (metis prod.collapse)
  note t = unrecognised_file_left_in_place
         [where companies = alice_only and today = today0 and out = "[]" and filenames = "[]"
            and others = "[''alice@x.com_Invoice.pdf'', ''notes.txt'']", OF h1 h2]
  from t load run
  have a: "map_of (files (fst (snd (process_files today0 alice_file fs_numbered))))
             (os_path_join base_dir ''notes.txt'')
           = map_of (files fs_numbered) (os_path_join base_dir ''notes.txt'')"
    and b: "\<forall>listed. listdir fs_numbered base_dir = Inr listed \<and> ''notes.txt'' \<in> set listed \<longrightarrow>
                 report_line ''notes.txt'' \<in> set (snd (snd (process_files today0 alice_file fs_numbered)))"
    by blast+
  from b listed have "report_line ''notes.txt''
      \<in> set (snd (snd (process_files today0 alice_file fs_numbered)))"
    by simp
  with t a h1 m r c ok show ?thesis by simp
qed

end
